theory Spec2Isabelle
  imports Main
begin

section \<open>Values, states and the array store\<close>

text \<open>
  The values of \<^verbatim>\<open>minikanren.ts\<close> are untyped JavaScript values. A logic variable is an
  object of class \<^verbatim>\<open>Var\<close> with a string \<^verbatim>\<open>id\<close>; the model identifies a \<^verbatim>\<open>Var\<close> object with
  its id. (\<^verbatim>\<open>walk\<close> returns a variable only when the state stores that very object under
  its id, so two variables that \<^verbatim>\<open>walk\<close> returns and that have one id are one object.
  Where the code compares a variable that \<^verbatim>\<open>walk\<close> has not returned, as \<^verbatim>\<open>occursCheck\<close>
  does with its first argument, a second \<^verbatim>\<open>Var\<close> object of the same id is a different
  object for the code and the same variable for the model.)
  A state has a variable unbound when it stores the variable under its own id, as
  \<^verbatim>\<open>callFresh\<close> does. A JavaScript number is modelled where it is an integer
  (\<open>Num\<close>), a bigint is \<open>Big\<close>; \<^verbatim>\<open>1 === 1n\<close> is false, and so is \<open>Num 1 = Big 1\<close>. An array
  is an object with an identity: \<open>Arr a\<close> is the array stored at address \<open>a\<close> of the array
  store, and \<^verbatim>\<open>===\<close> on two arrays compares the addresses. \<open>Native name\<close> is an object of
  the runtime that is neither a \<^verbatim>\<open>Var\<close> nor an array, named by where it is found:
  \<^verbatim>\<open>Object.prototype\<close> itself, its methods, the class \<^verbatim>\<open>Var\<close> and its method.
\<close>

datatype val =
    is_Var: Var (var_id: string)
  | Num int
  | Big int
  | Str string
  | Bool bool
  | Undef
  | is_Arr: Arr (addr: nat)
  | is_Native: Native string

definition is_object :: "val \<Rightarrow> bool" where
  "is_object v = (is_Var v \<or> is_Arr v \<or> is_Native v)"

text \<open>
  A \<^verbatim>\<open>State\<close> is a plain JavaScript object used as a dictionary. The model is a map from
  keys to values in which the entry at \<open>''__proto__''\<close> stands for the prototype of the
  object, when that is a value of the model; without this entry the prototype is
  \<^verbatim>\<open>Object.prototype\<close>. (The states of the code have no own property \<^verbatim>\<open>__proto__\<close>: every
  state is made by \<^verbatim>\<open>Object.assign\<close> on a new object, which assigns, and assigning to
  \<^verbatim>\<open>__proto__\<close> runs the setter of \<^verbatim>\<open>Object.prototype\<close>.)
\<close>

type_synonym State = "string \<rightharpoonup> val"

type_synonym Heap = "nat \<Rightarrow> val list"

text \<open>
  The property names of \<^verbatim>\<open>Object.prototype\<close> other than the accessor \<^verbatim>\<open>__proto__\<close>, and
  what a read of a key finds there.
\<close>

definition object_prototype_names :: "string list" where
  "object_prototype_names =
     [''constructor'', ''__defineGetter__'', ''__defineSetter__'', ''hasOwnProperty'',
      ''__lookupGetter__'', ''__lookupSetter__'', ''isPrototypeOf'', ''propertyIsEnumerable'',
      ''toString'', ''valueOf'', ''toLocaleString'']"

definition object_prototype :: "string \<Rightarrow> val" where
  "object_prototype k =
     (if k \<in> set object_prototype_names then Native (''Object.prototype.'' @ k) else Undef)"

text \<open>
  \<^verbatim>\<open>s[v.id]\<close>. An own property is read as it is. Otherwise the read goes through the
  prototype chain: \<^verbatim>\<open>__proto__\<close> reads the prototype itself; through
  \<^verbatim>\<open>Object.prototype\<close> a key reads a method or \<^verbatim>\<open>undefined\<close>; through a \<^verbatim>\<open>Var\<close> object it
  reads the field \<^verbatim>\<open>id\<close>, then the members of the class, then \<^verbatim>\<open>Object.prototype\<close>. A read
  through a prototype that is an array or a native object is outside the model: \<open>None\<close>.
\<close>

definition lookup :: "State \<Rightarrow> string \<Rightarrow> val option" where
  "lookup s k =
     (case s k of
        Some w \<Rightarrow> Some w
      | None \<Rightarrow>
          (case s ''__proto__'' of
             None \<Rightarrow> Some (if k = ''__proto__'' then Native ''Object.prototype''
                            else object_prototype k)
           | Some p \<Rightarrow>
               if is_Var p then
                 Some (if k = ''id'' then Str (var_id p)
                       else if k = ''constructor'' then Native ''Var''
                       else if k = ''toString'' then Native ''Var.prototype.toString''
                       else object_prototype k)
               else None))"

text \<open>
  \<^verbatim>\<open>walk\<close>: the \<^verbatim>\<open>while (v instanceof Var)\<close> loop. The first argument bounds the number of
  iterations; \<open>None\<close> says that the model has no result: the loop has not left within the
  bound, or it reads outside the model.
\<close>

fun walk :: "nat \<Rightarrow> val \<Rightarrow> State \<Rightarrow> val option" where
  "walk n (Var i) s =
     (case n of
        0 \<Rightarrow> None
      | Suc m \<Rightarrow>
          (case lookup s i of
             None \<Rightarrow> None
           | Some w \<Rightarrow> if Var i = w then Some (Var i) else walk m w s))"
| "walk n v s = Some v"

text \<open>
  \<^verbatim>\<open>extend\<close>: \<^verbatim>\<open>Object.freeze(Object.assign({}, state, bindings))\<close>. The new object has the
  prototype \<^verbatim>\<open>Object.prototype\<close>, whatever the prototype of \<open>state\<close> is. The own properties
  of \<open>state\<close> and then those of \<open>bindings\<close> (given as a map) are assigned to it; the
  assignment of \<^verbatim>\<open>__proto__\<close> sets the prototype when the value is an object and does
  nothing otherwise.
\<close>

definition extend :: "State \<Rightarrow> (string \<rightharpoonup> val) \<Rightarrow> State" where
  "extend state bindings =
     (\<lambda>k. if k = ''__proto__''
          then (case bindings k of
                  Some v \<Rightarrow> if is_object v then Some v else None
                | None \<Rightarrow> None)
          else (state ++ bindings) k)"

text \<open>
  \<^verbatim>\<open>unify\<close>. The result is \<open>None\<close> when the bound on the recursion depth is reached or a
  \<^verbatim>\<open>walk\<close> has no result, \<open>Some None\<close> when the code returns \<^verbatim>\<open>undefined\<close>, and
  \<open>Some (Some t)\<close> when it returns the state \<open>t\<close>. \<open>unify_elems\<close> is the \<^verbatim>\<open>for\<close> loop
  over the elements of two arrays of one length.
\<close>

fun unify :: "nat \<Rightarrow> Heap \<Rightarrow> val \<Rightarrow> val \<Rightarrow> State \<Rightarrow> State option option"
  and unify_elems :: "nat \<Rightarrow> Heap \<Rightarrow> val list \<Rightarrow> val list \<Rightarrow> State \<Rightarrow> State option option"
where
  "unify 0 h u v s = None"
| "unify (Suc n) h u v s =
     (case walk n u s of
        None \<Rightarrow> None
      | Some u' \<Rightarrow>
          (case walk n v s of
             None \<Rightarrow> None
           | Some v' \<Rightarrow>
               if u' = v' then Some (Some s)
               else if is_Var u' then Some (Some (extend s [var_id u' \<mapsto> v']))
               else if is_Var v' then Some (Some (extend s [var_id v' \<mapsto> u']))
               else if is_Arr u' \<and> is_Arr v' then
                 (if length (h (addr u')) = length (h (addr v'))
                  then unify_elems n h (h (addr u')) (h (addr v')) s
                  else Some None)
               else Some None))"
| "unify_elems n h (x # xs) (y # ys) t =
     (case unify n h x y t of
        None \<Rightarrow> None
      | Some None \<Rightarrow> Some None
      | Some (Some t') \<Rightarrow> unify_elems n h xs ys t')"
| "unify_elems n h xs ys t = Some (Some t)"

text \<open>
  \<^verbatim>\<open>occursCheck\<close>; \<open>occurs_some\<close> is \<^verbatim>\<open>v.some((w) => occursCheck(x, w, s))\<close>. The first
  argument is compared as it is passed, not walked.
\<close>

fun occursCheck :: "nat \<Rightarrow> Heap \<Rightarrow> val \<Rightarrow> val \<Rightarrow> State \<Rightarrow> bool option"
  and occurs_some :: "nat \<Rightarrow> Heap \<Rightarrow> val \<Rightarrow> val list \<Rightarrow> State \<Rightarrow> bool option"
where
  "occursCheck 0 h x v s = None"
| "occursCheck (Suc n) h x v s =
     (case walk n v s of
        None \<Rightarrow> None
      | Some v' \<Rightarrow>
          if is_Var v' then Some (x = v')
          else if is_Arr v' then occurs_some n h x (h (addr v')) s
          else Some False)"
| "occurs_some n h x [] s = Some False"
| "occurs_some n h x (w # ws) s =
     (case occursCheck n h x w s of
        None \<Rightarrow> None
      | Some True \<Rightarrow> Some True
      | Some False \<Rightarrow> occurs_some n h x ws s)"

text \<open>\<^verbatim>\<open>unifyCheck\<close>: \<^verbatim>\<open>unify\<close> behind the two occurs checks.\<close>

definition unifyCheck :: "nat \<Rightarrow> Heap \<Rightarrow> val \<Rightarrow> val \<Rightarrow> State \<Rightarrow> State option option" where
  "unifyCheck n h u v s =
     (if u = v then unify n h u v s
      else (case occursCheck n h u v s of
         None \<Rightarrow> None
       | Some True \<Rightarrow> Some None
       | Some False \<Rightarrow>
           (case occursCheck n h v u s of
              None \<Rightarrow> None
            | Some True \<Rightarrow> Some None
            | Some False \<Rightarrow> unify n h u v s)))"


section \<open>Streams and the goal algebra\<close>

text \<open>
  A \<^verbatim>\<open>Stream\<close> is a generator object. \<open>Done\<close> is a generator whose \<^verbatim>\<open>next()\<close> reports
  \<^verbatim>\<open>done\<close>, \<open>Yield v g\<close> one whose \<^verbatim>\<open>next()\<close> yields \<open>v\<close> and leaves the generator \<open>g\<close>,
  and \<open>Abort e\<close> one whose \<^verbatim>\<open>next()\<close> does not return normally: it throws, or the model has
  no result for it (\<open>NoResult\<close>: the pull does not return within the bound of the model, or
  it reads outside the model).

  A \<^verbatim>\<open>Goal\<close> is a function from a state to a stream. The call \<^verbatim>\<open>goal(s)\<close> itself can fail:
  a goal written with \<^verbatim>\<open>function*\<close> returns its generator at once and runs its body at the
  first \<^verbatim>\<open>next()\<close>, but \<^verbatim>\<open>callFresh\<close>, \<^verbatim>\<open>fresh\<close> and \<^verbatim>\<open>delay\<close> return plain functions, which
  run the goal constructor when they are called. So a call is a failure or a generator.
  \<open>started c\<close> is the stream of a loop that makes the call \<open>c\<close> when it is first pulled and
  then delegates to the generator (\<^verbatim>\<open>yield* goal(s)\<close>, \<^verbatim>\<open>for (const s1 of goal(s))\<close>,
  \<^verbatim>\<open>goal(s).next()\<close>).
\<close>

datatype error = InstantiationError | TypeError

datatype failure = NoResult | Thrown error

codatatype 'a gen = Done | Yield 'a "'a gen" | Abort failure

type_synonym 'a call = "failure + 'a gen"

type_synonym Goal = "State \<Rightarrow> State call"

definition started :: "'a call \<Rightarrow> 'a gen" where
  "started c = (case c of Inl e \<Rightarrow> Abort e | Inr g \<Rightarrow> g)"

definition succeed :: Goal where
  "succeed s = Inr (Yield s Done)"

definition fail :: Goal where
  "fail s = Inr Done"

text \<open>\<^verbatim>\<open>identical(u, v)\<close>, with the bound and the array store that \<^verbatim>\<open>unify\<close> reads.\<close>

definition identical :: "nat \<Rightarrow> Heap \<Rightarrow> val \<Rightarrow> val \<Rightarrow> Goal" where
  "identical n h u v s =
     Inr (case unify n h u v s of
            None \<Rightarrow> Abort NoResult
          | Some None \<Rightarrow> Done
          | Some (Some t) \<Rightarrow> Yield t Done)"

text \<open>
  The body of the generator that \<^verbatim>\<open>conj\<close> returns,
  \<^verbatim>\<open>for (const s1 of goal(s)) { yield* conj(...goals)(s1); }\<close>. Its state is the stream being
  delegated to (\<open>inner\<close>) and the rest of \<^verbatim>\<open>goal(s)\<close> (\<open>outer\<close>). \<open>settle\<close> runs the code
  between two yields: while the inner stream is exhausted it takes the next state of the
  outer one. It has no value (\<open>None\<close>) when that search never ends.
\<close>

partial_function (option) settle ::
  "('a \<Rightarrow> 'b gen) \<Rightarrow> 'b gen \<Rightarrow> 'a gen \<Rightarrow> ('b gen \<times> 'a gen) option" where
  "settle f inner outer =
     (case inner of
        Done \<Rightarrow>
          (case outer of
             Yield x xs \<Rightarrow> settle f (f x) xs
           | _ \<Rightarrow> Some (inner, outer))
      | _ \<Rightarrow> Some (inner, outer))"

primcorec bind_loop :: "('a \<Rightarrow> 'b gen) \<Rightarrow> 'b gen \<Rightarrow> 'a gen \<Rightarrow> 'b gen" where
  "bind_loop f inner outer =
     (case settle f inner outer of
        None \<Rightarrow> Abort NoResult
      | Some (i, out) \<Rightarrow>
          (case i of
             Yield y ys \<Rightarrow> Yield y (bind_loop f ys out)
           | Abort e \<Rightarrow> Abort e
           | Done \<Rightarrow> (case out of Abort e \<Rightarrow> Abort e | _ \<Rightarrow> Done)))"

text \<open>
  \<^verbatim>\<open>conj\<close>. The source also returns \<^verbatim>\<open>conj(...goals)\<close> when the first goal is the function
  \<^verbatim>\<open>succeed\<close> and the first goal when it is \<^verbatim>\<open>fail\<close>. The streams are those of the general
  branch, which is the one modelled; the shortcut for \<^verbatim>\<open>succeed\<close> differs from it when the
  remaining goal fails at its call, which then happens at the call of the conjunction
  and not at its first pull.
\<close>

fun conj_goals :: "Goal list \<Rightarrow> Goal" where
  "conj_goals [] = succeed"
| "conj_goals [g] = g"
| "conj_goals (g # gs) =
     (\<lambda>s. Inr (bind_loop (\<lambda>s1. started (conj_goals gs s1)) Done (started (g s))))"

text \<open>\<^verbatim>\<open>disj\<close>: \<^verbatim>\<open>for (const goal of goals) { yield* goal(s); }\<close>.\<close>

primcorec gappend :: "'a gen \<Rightarrow> 'a gen \<Rightarrow> 'a gen" where
  "gappend a b =
     (case a of
        Done \<Rightarrow> b
      | Yield v a' \<Rightarrow> Yield v (gappend a' b)
      | Abort e \<Rightarrow> Abort e)"

fun disj_loop :: "Goal list \<Rightarrow> State \<Rightarrow> State gen" where
  "disj_loop [] s = Done"
| "disj_loop (goal # goals) s = gappend (started (goal s)) (disj_loop goals s)"

definition disj_goals :: "Goal list \<Rightarrow> Goal" where
  "disj_goals goals =
     (if length goals = 0 then fail
      else if length goals = 1 then goals ! 0
      else (\<lambda>s. Inr (disj_loop goals s)))"

text \<open>An argument of \<^verbatim>\<open>conde\<close>, \<^verbatim>\<open>condi\<close>, \<^verbatim>\<open>conda\<close>, \<^verbatim>\<open>condu\<close>: a goal or an array of goals.\<close>

datatype clause = Bare Goal | Clause "Goal list"

definition clause_goal :: "clause \<Rightarrow> Goal" where
  "clause_goal c = (case c of Bare g \<Rightarrow> g | Clause gs \<Rightarrow> conj_goals gs)"

text \<open>
  \<^verbatim>\<open>disji\<close> and \<^verbatim>\<open>condi\<close> (the same code in both) begin with
  \<^verbatim>\<open>const iters = goals.map((goal) => goal(s))\<close>: at the first pull every goal is called, in
  order, before any generator is pulled, and the first call that fails ends the pull.
\<close>

fun all_calls :: "'a call list \<Rightarrow> failure + 'a gen list" where
  "all_calls [] = Inr []"
| "all_calls (c # cs) =
     (case c of
        Inl e \<Rightarrow> Inl e
      | Inr g \<Rightarrow> (case all_calls cs of Inl e \<Rightarrow> Inl e | Inr gs \<Rightarrow> Inr (g # gs)))"

text \<open>
  The loop of \<^verbatim>\<open>disji\<close> and of \<^verbatim>\<open>condi\<close>:
  \<^verbatim>\<open>while (iters.length > 0) { for (let i = 0; i < iters.length;) { ... } }\<close>.
  \<open>advance\<close> runs it up to the next \<^verbatim>\<open>next()\<close> that is not \<^verbatim>\<open>done\<close>: an exhausted iterator
  is spliced out and \<open>i\<close> stays, and at the end of the array \<open>i\<close> starts again at 0.
  \<open>round_robin\<close> is the loop over the iterators, and \<open>interleave\<close> the whole body of the
  generator: the calls, then the loop.
\<close>

function advance :: "'a gen list \<Rightarrow> nat \<Rightarrow> 'a gen list \<times> nat" where
  "advance iters i =
     (if iters = [] then ([], 0)
      else if length iters \<le> i then advance iters 0
      else if iters ! i = Done then advance (take i iters @ drop (Suc i) iters) i
      else (iters, i))"
  by pat_completeness auto
termination
  by (relation "measures [\<lambda>(iters, i). length iters, \<lambda>(iters, i). if length iters \<le> i then 1 else 0]")
    auto

declare advance.simps [simp del]

primcorec round_robin :: "'a gen list \<Rightarrow> nat \<Rightarrow> 'a gen" where
  "round_robin iters i =
     (case advance iters i of
        (iters', j) \<Rightarrow>
          if iters' = [] then Done
          else (case iters' ! j of
             Yield v g \<Rightarrow> Yield v (round_robin (iters'[j := g]) (Suc j))
           | Abort e \<Rightarrow> Abort e
           | Done \<Rightarrow> Done))"

definition interleave :: "'a call list \<Rightarrow> 'a gen" where
  "interleave calls =
     (case all_calls calls of
        Inl e \<Rightarrow> Abort e
      | Inr iters \<Rightarrow> round_robin iters 0)"

definition disji :: "Goal list \<Rightarrow> Goal" where
  "disji goals =
     (if length goals = 0 then fail
      else if length goals = 1 then goals ! 0
      else (\<lambda>s. Inr (interleave (map (\<lambda>goal. goal s) goals))))"

definition condi :: "clause list \<Rightarrow> Goal" where
  "condi goals =
     (if length goals = 0 then fail
      else if length goals = 1 then clause_goal (goals ! 0)
      else (\<lambda>s. Inr (interleave (map (\<lambda>g. clause_goal g s) goals))))"

text \<open>
  \<^verbatim>\<open>conda\<close>. An array clause whose head yields runs \<^verbatim>\<open>rest\<close> over the whole stream of the
  head; a bare goal that yields gives its first state only. An empty array clause calls
  \<^verbatim>\<open>undefined\<close>, a \<^verbatim>\<open>TypeError\<close>.
\<close>

fun conda_loop :: "clause list \<Rightarrow> State \<Rightarrow> State gen" where
  "conda_loop [] s = Done"
| "conda_loop (Clause [] # goals) s = Abort (Thrown TypeError)"
| "conda_loop (Clause (head # rest) # goals) s =
     (case started (head s) of
        Done \<Rightarrow> conda_loop goals s
      | Yield v iter \<Rightarrow> bind_loop (\<lambda>s1. started (conj_goals rest s1)) Done (Yield v iter)
      | Abort e \<Rightarrow> Abort e)"
| "conda_loop (Bare goal # goals) s =
     (case started (goal s) of
        Done \<Rightarrow> conda_loop goals s
      | Yield v iter \<Rightarrow> Yield v Done
      | Abort e \<Rightarrow> Abort e)"

definition conda :: "clause list \<Rightarrow> Goal" where
  "conda goals =
     (if length goals = 0 then fail
      else if length goals = 1 then clause_goal (goals ! 0)
      else (\<lambda>s. Inr (conda_loop goals s)))"

text \<open>
  \<^verbatim>\<open>condu\<close>. \<^verbatim>\<open>goal.shift()\<close> removes the head from the clause array itself, and the goal
  that \<^verbatim>\<open>condu\<close> returned keeps these arrays: running the generator changes the goal. So a
  run returns the stream together with the clause arrays as it leaves them (once the
  stream has been pulled).
\<close>

fun condu_run :: "clause list \<Rightarrow> State \<Rightarrow> State gen \<times> clause list" where
  "condu_run [] s = (Done, [])"
| "condu_run (Clause [] # goals) s =
     (case condu_run goals s of (r, goals') \<Rightarrow> (r, Clause [] # goals'))"
| "condu_run (Clause (head # rest) # goals) s =
     (case started (head s) of
        Done \<Rightarrow> (case condu_run goals s of (r, goals') \<Rightarrow> (r, Clause rest # goals'))
      | Yield v iter \<Rightarrow> (started (conj_goals rest v), Clause rest # goals)
      | Abort e \<Rightarrow> (Abort e, Clause rest # goals))"
| "condu_run (Bare goal # goals) s =
     (case started (goal s) of
        Done \<Rightarrow> (case condu_run goals s of (r, goals') \<Rightarrow> (r, Bare goal # goals'))
      | Yield v iter \<Rightarrow> (Yield v Done, Bare goal # goals)
      | Abort e \<Rightarrow> (Abort e, Bare goal # goals))"

definition condu :: "clause list \<Rightarrow> State \<Rightarrow> State call \<times> clause list" where
  "condu goals s =
     (if length goals = 0 then (fail s, goals)
      else (case condu_run goals s of (r, goals') \<Rightarrow> (Inr r, goals')))"

text \<open>
  \<^verbatim>\<open>callFresh\<close>, and \<^verbatim>\<open>fresh\<close> in the form that is given the identifiers (the other form
  reads them from the text of the function). \<^verbatim>\<open>callFresh\<close> passes the object literal
  \<^verbatim>\<open>{ [id]: new Var(id) }\<close>, in which every id is an own property. \<^verbatim>\<open>fresh\<close> fills its
  object by the assignments \<^verbatim>\<open>vars[id] = new Var(id)\<close>, and the assignment of \<^verbatim>\<open>__proto__\<close>
  sets the prototype of \<^verbatim>\<open>vars\<close> and adds no property.
\<close>

definition callFresh :: "string \<Rightarrow> (State \<Rightarrow> State \<Rightarrow> 'r) \<Rightarrow> State \<Rightarrow> 'r" where
  "callFresh i gc s = (let s' = extend s [i \<mapsto> Var i] in gc s' s')"


section \<open>The relational library\<close>

text \<open>
  \<^verbatim>\<open>pluso\<close>. \<open>is_number\<close> is \<^verbatim>\<open>typeof a === "number" || typeof a === "bigint"\<close> on the
  numbers of the model (the integers); \<open>BigInt\<close> is applied to numbers only. The function
  throws at the call, so the result is an error or a goal.
\<close>

definition is_number :: "val \<Rightarrow> bool" where
  "is_number a = (case a of Num k \<Rightarrow> True | Big k \<Rightarrow> True | _ \<Rightarrow> False)"

definition BigInt :: "val \<Rightarrow> int" where
  "BigInt a = (case a of Num k \<Rightarrow> k | Big k \<Rightarrow> k | _ \<Rightarrow> 0)"

definition pluso :: "nat \<Rightarrow> Heap \<Rightarrow> val \<Rightarrow> val \<Rightarrow> val \<Rightarrow> error + Goal" where
  "pluso n h a b c =
     (if is_number a then
        (if is_number b then
           (if is_number c then Inr (if BigInt a + BigInt b = BigInt c then succeed else fail)
            else if is_Var c then Inr (identical n h c (Big (BigInt a + BigInt b)))
            else Inl InstantiationError)
         else if is_Var b \<and> is_number c then Inr (identical n h b (Big (BigInt c - BigInt a)))
         else Inl InstantiationError)
      else if is_Var a \<and> is_number b \<and> is_number c
        then Inr (identical n h a (Big (BigInt c - BigInt b)))
      else Inl InstantiationError)"

text \<open>
  The generators below create arrays and change them, so they run in a \<open>world\<close>: the
  array store, the next free address, and the number of UUIDs drawn so far.
  \<^verbatim>\<open>crypto.randomUUID()\<close> is a parameter \<open>uuid\<close>: \<open>uuid k\<close> is the \<open>k\<close>-th id it returns.
  A \<^verbatim>\<open>next()\<close> returns what it reports, the generator it leaves, and the world it leaves.
\<close>

datatype 'a pull = Ended | Yielded 'a | Failed failure

datatype world = World (heap: Heap) (next_addr: nat) (drawn: nat)

definition alloc :: "val list \<Rightarrow> world \<Rightarrow> nat \<times> world" where
  "alloc xs w =
     (next_addr w, World ((heap w)(next_addr w := xs)) (Suc (next_addr w)) (drawn w))"

definition new_Var :: "(nat \<Rightarrow> string) \<Rightarrow> world \<Rightarrow> val \<times> world" where
  "new_Var uuid w = (Var (uuid (drawn w)), World (heap w) (next_addr w) (Suc (drawn w)))"

definition push :: "nat \<Rightarrow> val \<Rightarrow> world \<Rightarrow> world" where
  "push a v w = World ((heap w)(a := heap w a @ [v])) (next_addr w) (drawn w)"

text \<open>
  \<^verbatim>\<open>varList(result)\<close>: \<^verbatim>\<open>while (true) { yield result; result.push(new Var()); }\<close>. Every
  \<^verbatim>\<open>next()\<close> yields the one array \<open>result\<close>; from the second on it first pushes a new variable.
\<close>

datatype varList_gen = VarList (result: nat) (resumed: bool)

definition varList :: "nat \<Rightarrow> varList_gen" where
  "varList a = VarList a False"

definition varList_next ::
  "(nat \<Rightarrow> string) \<Rightarrow> varList_gen \<Rightarrow> world \<Rightarrow> val \<times> varList_gen \<times> world" where
  "varList_next uuid g w =
     (if resumed g
      then (case new_Var uuid w of (v, w1) \<Rightarrow> (Arr (result g), g, push (result g) v w1))
      else (Arr (result g), VarList (result g) True, w))"

text \<open>
  \<^verbatim>\<open>listo(x)\<close>, applied to a state. \<open>Listo_entry\<close> is the generator of the \<^verbatim>\<open>Var\<close> branch
  before its first \<^verbatim>\<open>next()\<close>, \<open>Listo_vars\<close> the same generator inside its \<^verbatim>\<open>for\<close> loop.
\<close>

datatype listo_gen =
    Listo_entry val State
  | Listo_vars string State varList_gen
  | Listo_succeed State
  | Listo_end

definition listo :: "val \<Rightarrow> State \<Rightarrow> listo_gen" where
  "listo x s =
     (if is_Var x then Listo_entry x s
      else if is_Arr x then Listo_succeed s
      else Listo_end)"

fun listo_next ::
  "nat \<Rightarrow> (nat \<Rightarrow> string) \<Rightarrow> listo_gen \<Rightarrow> world \<Rightarrow> State pull \<times> listo_gen \<times> world" where
  "listo_next n uuid (Listo_entry x s) w =
     (case walk n x s of
        None \<Rightarrow> (Failed NoResult, Listo_end, w)
      | Some v \<Rightarrow>
          if is_Var v then
            (case alloc [] w of
               (a, w1) \<Rightarrow>
                 (case varList_next uuid (varList a) w1 of
                    (vars, vl, w2) \<Rightarrow>
                      (Yielded (extend s [var_id v \<mapsto> vars]), Listo_vars (var_id v) s vl, w2)))
          else if is_Arr v then (Yielded s, Listo_end, w)
          else (Ended, Listo_end, w))"
| "listo_next n uuid (Listo_vars i s vl) w =
     (case varList_next uuid vl w of
        (vars, vl', w') \<Rightarrow> (Yielded (extend s [i \<mapsto> vars]), Listo_vars i s vl', w'))"
| "listo_next n uuid (Listo_succeed s) w = (Yielded s, Listo_end, w)"
| "listo_next n uuid Listo_end w = (Ended, Listo_end, w)"

text \<open>
  \<^verbatim>\<open>membero(el, list)\<close>, applied to a state. \<open>Membero_elems el a i s\<close> is the loop over the
  array at \<open>a\<close>, about to read index \<open>i\<close>; \<open>membero_scan\<close> is that loop up to its next yield.
\<close>

datatype membero_gen =
    Membero_entry val val State
  | Membero_vars string State varList_gen
  | Membero_elems val nat nat State
  | Membero_end

definition membero :: "val \<Rightarrow> val \<Rightarrow> State \<Rightarrow> membero_gen" where
  "membero el list s =
     (if is_Var list then Membero_entry el list s
      else if is_Arr list then Membero_elems el (addr list) 0 s
      else Membero_end)"

fun membero_scan ::
  "nat \<Rightarrow> Heap \<Rightarrow> val \<Rightarrow> val list \<Rightarrow> State \<Rightarrow> nat \<Rightarrow> State pull \<times> nat" where
  "membero_scan n h el [] s i = (Ended, i)"
| "membero_scan n h el (x # xs) s i =
     (case unify n h el x s of
        None \<Rightarrow> (Failed NoResult, Suc i)
      | Some None \<Rightarrow> membero_scan n h el xs s (Suc i)
      | Some (Some t) \<Rightarrow> (Yielded t, Suc i))"

definition membero_elems_next ::
  "nat \<Rightarrow> val \<Rightarrow> nat \<Rightarrow> nat \<Rightarrow> State \<Rightarrow> world \<Rightarrow> State pull \<times> membero_gen \<times> world" where
  "membero_elems_next n el a i s w =
     (case membero_scan n (heap w) el (drop i (heap w a)) s i of
        (Yielded t, i') \<Rightarrow> (Yielded t, Membero_elems el a i' s, w)
      | (r, i') \<Rightarrow> (r, Membero_end, w))"

fun membero_next ::
  "nat \<Rightarrow> (nat \<Rightarrow> string) \<Rightarrow> membero_gen \<Rightarrow> world
    \<Rightarrow> State pull \<times> membero_gen \<times> world" where
  "membero_next n uuid (Membero_entry el list s) w =
     (case walk n list s of
        None \<Rightarrow> (Failed NoResult, Membero_end, w)
      | Some l \<Rightarrow>
          if is_Var l then
            (case alloc [el] w of
               (a, w1) \<Rightarrow>
                 (case varList_next uuid (varList a) w1 of
                    (r, vl, w2) \<Rightarrow>
                      (Yielded (extend s [var_id list \<mapsto> r]),
                       Membero_vars (var_id list) s vl, w2)))
          else if is_Arr l then membero_elems_next n el (addr l) 0 s w
          else (Ended, Membero_end, w))"
| "membero_next n uuid (Membero_vars i s vl) w =
     (case varList_next uuid vl w of
        (r, vl', w') \<Rightarrow> (Yielded (extend s [i \<mapsto> r]), Membero_vars i s vl', w'))"
| "membero_next n uuid (Membero_elems el a i s) w = membero_elems_next n el a i s w"
| "membero_next n uuid Membero_end w = (Ended, Membero_end, w)"

text \<open>\<open>membero_pulls n uuid k\<close>: \<open>k\<close> calls of \<^verbatim>\<open>next()\<close> in a row.\<close>

fun membero_pulls ::
  "nat \<Rightarrow> (nat \<Rightarrow> string) \<Rightarrow> nat \<Rightarrow> membero_gen \<Rightarrow> world
    \<Rightarrow> State pull list \<times> membero_gen \<times> world" where
  "membero_pulls n uuid 0 g w = ([], g, w)"
| "membero_pulls n uuid (Suc k) g w =
     (case membero_next n uuid g w of
        (r, g1, w1) \<Rightarrow>
          (case membero_pulls n uuid k g1 w1 of (rs, g2, w2) \<Rightarrow> (r # rs, g2, w2)))"

text \<open>
  \<^verbatim>\<open>ntho(n, list, el)\<close> where \<open>n\<close> and \<open>list\<close> are both \<^verbatim>\<open>Var\<close> objects, with the ids
  \<open>n_id\<close> and \<open>list_id\<close> (the last branch of the function), applied to a state: the
  two nested \<^verbatim>\<open>for\<close> loops over \<^verbatim>\<open>varList([el])\<close> and \<^verbatim>\<open>varList()\<close>. The inner loop never ends, so the outer generator is pulled once.
  \<open>ntho_yield\<close> is the body: the new array \<^verbatim>\<open>[...head, ...tail]\<close> and the extended state.
\<close>

datatype ntho_gen =
    Ntho_entry string string val State
  | Ntho_heads string string State varList_gen val varList_gen

definition ntho_unbound :: "string \<Rightarrow> string \<Rightarrow> val \<Rightarrow> State \<Rightarrow> ntho_gen" where
  "ntho_unbound n_id list_id el s = Ntho_entry n_id list_id el s"

definition ntho_yield ::
  "string \<Rightarrow> string \<Rightarrow> State \<Rightarrow> val \<Rightarrow> val \<Rightarrow> world \<Rightarrow> State \<times> world" where
  "ntho_yield n_id list_id s hd_arr tl_arr w =
     (case alloc (heap w (addr hd_arr) @ heap w (addr tl_arr)) w of
        (a, w') \<Rightarrow>
          (extend s [list_id \<mapsto> Arr a,
             n_id \<mapsto> Num (int (length (heap w (addr hd_arr)) + length (heap w (addr tl_arr))))],
           w'))"

fun ntho_next ::
  "(nat \<Rightarrow> string) \<Rightarrow> ntho_gen \<Rightarrow> world \<Rightarrow> State pull \<times> ntho_gen \<times> world" where
  "ntho_next uuid (Ntho_entry n_id list_id el s) w =
     (case alloc [el] w of
        (a, w1) \<Rightarrow>
          (case varList_next uuid (varList a) w1 of
             (tl_arr, tails, w2) \<Rightarrow>
               (case alloc [] w2 of
                  (b, w3) \<Rightarrow>
                    (case varList_next uuid (varList b) w3 of
                       (hd_arr, heads, w4) \<Rightarrow>
                         (case ntho_yield n_id list_id s hd_arr tl_arr w4 of
                            (t, w5) \<Rightarrow>
                              (Yielded t, Ntho_heads n_id list_id s tails tl_arr heads, w5))))))"
| "ntho_next uuid (Ntho_heads n_id list_id s tails tl_arr heads) w =
     (case varList_next uuid heads w of
        (hd_arr, heads', w1) \<Rightarrow>
          (case ntho_yield n_id list_id s hd_arr tl_arr w1 of
             (t, w2) \<Rightarrow> (Yielded t, Ntho_heads n_id list_id s tails tl_arr heads', w2)))"

section \<open>Notions used in the statements\<close>

text \<open>
  \<open>plain s\<close>: the prototype of the state \<open>s\<close> is \<^verbatim>\<open>Object.prototype\<close>, as it is for the empty
  state. \<open>walks s a r\<close>: \<^verbatim>\<open>walk(a, s)\<close> returns \<open>r\<close>.
\<close>

definition plain :: "State \<Rightarrow> bool" where
  "plain s = (s ''__proto__'' = None)"

definition walks :: "State \<Rightarrow> val \<Rightarrow> val \<Rightarrow> bool" where
  "walks s a r = (\<exists>n. walk n a s = Some r)"

text \<open>
  \<open>struct_eq h s a b\<close>: \<^verbatim>\<open>walk(a, s)\<close> and \<^verbatim>\<open>walk(b, s)\<close> both return, and the two values are
  equal up to structure: they are the same value (the same variable, equal atoms, or one
  array object), or they are two arrays of one length whose corresponding elements are
  again equal in this sense after resolution in \<open>s\<close>.
\<close>

inductive struct_eq :: "Heap \<Rightarrow> State \<Rightarrow> val \<Rightarrow> val \<Rightarrow> bool" for h s where
  same: "walks s a r \<Longrightarrow> walks s b r \<Longrightarrow> struct_eq h s a b"
| seqs: "walks s a (Arr p) \<Longrightarrow> walks s b (Arr q) \<Longrightarrow>
    list_all2 (struct_eq h s) (h p) (h q) \<Longrightarrow> struct_eq h s a b"

text \<open>
  \<open>carries s s'\<close>: every \<^verbatim>\<open>walk\<close> that returns in \<open>s\<close> returns in \<open>s'\<close>, with the same
  value when that value is not a variable, and with a value that depends only on the
  value returned in \<open>s\<close>.
\<close>

definition carries :: "State \<Rightarrow> State \<Rightarrow> bool" where
  "carries s s' = (\<exists>f. (\<forall>r. \<not> is_Var r \<longrightarrow> f r = r) \<and>
     (\<forall>a r. walks s a r \<longrightarrow> walks s' a (f r)))"

text \<open>
  \<open>gnth g k\<close> is what the \<open>k\<close>-th pull of the stream \<open>g\<close> yields (from 0). \<open>no_abort k g\<close>: each
  of the first \<open>k\<close> pulls of \<open>g\<close> returns. \<open>has_len k g\<close>: \<open>g\<close> yields at least \<open>k\<close> times.
  \<open>heads\<close> and \<open>tails\<close> are one round over a list of streams: what the streams that are not
  exhausted yield, and what they leave. \<open>pos its j d\<close> counts the pulls of the round-robin
  loop before the one that takes the \<open>d\<close>-th element of stream \<open>j\<close>.
\<close>

fun gnth :: "'a gen \<Rightarrow> nat \<Rightarrow> 'a option" where
  "gnth g 0 = (case g of Yield v g' \<Rightarrow> Some v | _ \<Rightarrow> None)"
| "gnth g (Suc k) = (case g of Yield v g' \<Rightarrow> gnth g' k | _ \<Rightarrow> None)"

fun no_abort :: "nat \<Rightarrow> 'a gen \<Rightarrow> bool" where
  "no_abort 0 g = True"
| "no_abort (Suc k) g = (case g of Yield v g' \<Rightarrow> no_abort k g' | Done \<Rightarrow> True | Abort e \<Rightarrow> False)"

fun has_len :: "nat \<Rightarrow> 'a gen \<Rightarrow> bool" where
  "has_len 0 g = True"
| "has_len (Suc k) g = (case g of Yield v g' \<Rightarrow> has_len k g' | _ \<Rightarrow> False)"

fun heads :: "'a gen list \<Rightarrow> 'a list" where
  "heads [] = []"
| "heads (g # gs) = (case g of Yield v g' \<Rightarrow> v # heads gs | _ \<Rightarrow> heads gs)"

fun tails :: "'a gen list \<Rightarrow> 'a gen list" where
  "tails [] = []"
| "tails (g # gs) = (case g of Yield v g' \<Rightarrow> g' # tails gs | _ \<Rightarrow> tails gs)"

fun gprepend :: "'a list \<Rightarrow> 'a gen \<Rightarrow> 'a gen" where
  "gprepend [] g = g"
| "gprepend (v # vs) g = Yield v (gprepend vs g)"

fun pos :: "'a gen list \<Rightarrow> nat \<Rightarrow> nat \<Rightarrow> nat" where
  "pos its j 0 = length (heads (take j its))"
| "pos its j (Suc d) = length (heads its) + pos (tails its) (length (heads (take j its))) d"

text \<open>
  \<open>round_abort its\<close> is the failure of the first stream of \<open>its\<close> whose pull does not return,
  if there is one, and \<open>before_abort its\<close> the streams in front of it.
\<close>

fun round_abort :: "'a gen list \<Rightarrow> failure option" where
  "round_abort [] = None"
| "round_abort (g # gs) = (case g of Abort e \<Rightarrow> Some e | _ \<Rightarrow> round_abort gs)"

fun before_abort :: "'a gen list \<Rightarrow> 'a gen list" where
  "before_abort [] = []"
| "before_abort (g # gs) = (case g of Abort e \<Rightarrow> [] | _ \<Rightarrow> g # before_abort gs)"

text \<open>
  Round-robin order with skipping, on the streams of the clauses alone: round \<open>r\<close> is
  made of the \<open>r\<close>-th elements of the clauses that have one, in the order of the clauses,
  and \<open>rounds its n\<close> is the rounds \<open>0, ..., n - 1\<close> one after the other.
\<close>

definition nth_round :: "'a gen list \<Rightarrow> nat \<Rightarrow> 'a list" where
  "nth_round its r = List.map_filter (\<lambda>g. gnth g r) its"

definition rounds :: "'a gen list \<Rightarrow> nat \<Rightarrow> 'a list" where
  "rounds its n = concat (map (nth_round its) [0..<n])"

text \<open>The stream of \<^verbatim>\<open>disji\<close> and \<^verbatim>\<open>condi\<close> over the streams of clauses whose calls return.\<close>

definition interleaved :: "'a gen list \<Rightarrow> 'a gen" where
  "interleaved its =
     (if length its = 0 then Done else if length its = 1 then its ! 0 else round_robin its 0)"

subsection \<open>Sample inputs\<close>

definition nested_heap :: Heap where
  "nested_heap = (\<lambda>_. [])(0 := [Var ''x''], 1 := [Var ''x''], 2 := [Arr 1])"

definition xy_state :: State where
  "xy_state = [''x'' \<mapsto> Var ''x'', ''y'' \<mapsto> Var ''y'']"

definition x_is :: "int \<Rightarrow> Goal" where
  "x_is k = identical 2 (\<lambda>_. []) (Var ''x'') (Num k)"

definition y_is :: "int \<Rightarrow> Goal" where
  "y_is k = identical 2 (\<lambda>_. []) (Var ''y'') (Num k)"

text \<open>The goal \<^verbatim>\<open>function* (s) { while (true) yield s; }\<close>.\<close>

primcorec forever :: "'a \<Rightarrow> 'a gen" where
  "forever v = Yield v (forever v)"

definition always :: Goal where
  "always s = Inr (forever s)"

text \<open>
  \<open>thrown_or r\<close> is the goal \<^verbatim>\<open>(s) => gc(s)(s)\<close> for a constructor whose result is \<open>r\<close>: when the
  constructor throws, the call of the goal throws. \<open>thrower\<close> is
  \<^verbatim>\<open>callFresh("a", (s) => pluso(s.a, s.a, 1))\<close>.
\<close>

definition thrown_or :: "error + Goal \<Rightarrow> Goal" where
  "thrown_or r = (case r of Inl e \<Rightarrow> (\<lambda>s. Inl (Thrown e)) | Inr g \<Rightarrow> g)"

definition thrower :: Goal where
  "thrower = callFresh ''a'' (\<lambda>s. thrown_or (pluso 2 (\<lambda>_. []) (Var ''a'') (Var ''a'') (Num 1)))"

definition world0 :: world where
  "world0 = World (\<lambda>_. []) 0 0"

definition sample_uuid :: "nat \<Rightarrow> string" where
  "sample_uuid k = replicate (Suc k) CHR ''u''"

section \<open>The unifier\<close>


lemma extend_plain:
  "s ''__proto__'' = None \<Longrightarrow> i \<noteq> ''__proto__'' \<Longrightarrow> extend s [i \<mapsto> w] = s(i \<mapsto> w)"
  by (auto simp: extend_def fun_eq_iff map_add_def)

lemma lookup_own: "s i = Some w \<Longrightarrow> lookup s i = Some w"
  by (simp add: lookup_def)

lemma lookup_upd:
  assumes "i \<noteq> ''__proto__''"
  shows "lookup (s(i \<mapsto> w)) j = (if j = i then Some w else lookup s j)"
proof (cases "j = i")
  case True
  then show ?thesis by (simp add: lookup_def)
next
  case False
  then have a: "(s(i \<mapsto> w)) j = s j" by simp
  have b: "(s(i \<mapsto> w)) ''__proto__'' = s ''__proto__''" using assms by simp
  show ?thesis unfolding lookup_def a b using False by simp
qed

lemma lookup_plain_proto: "plain s \<Longrightarrow> lookup s ''__proto__'' = Some (Native ''Object.prototype'')"
  by (simp add: lookup_def plain_def)

lemma unbound_not_proto: "plain s \<Longrightarrow> lookup s i = Some (Var i) \<Longrightarrow> i \<noteq> ''__proto__''"
  using lookup_plain_proto by fastforce

lemma walk_Var_end: "walk n a s = Some (Var i) \<Longrightarrow> lookup s i = Some (Var i)"
proof (induction n a s rule: walk.induct)
  case (1 n j s)
  then show ?case
    by (cases n) (auto split: if_splits option.splits)
qed simp_all

lemma walks_Var_end: "walks s a (Var i) \<Longrightarrow> lookup s i = Some (Var i)"
  unfolding walks_def using walk_Var_end by blast

lemma walks_nonVar: "\<not> is_Var a \<Longrightarrow> walks s a r \<longleftrightarrow> r = a"
  unfolding walks_def by (cases a) auto

lemma walks_Var_self: "lookup s i = Some (Var i) \<Longrightarrow> walks s (Var i) r \<longleftrightarrow> r = Var i"
proof
  assume l: "lookup s i = Some (Var i)" and w: "walks s (Var i) r"
  then obtain n where "walk n (Var i) s = Some r" unfolding walks_def by blast
  with l show "r = Var i" by (cases n) auto
next
  assume l: "lookup s i = Some (Var i)" and "r = Var i"
  then have "walk (Suc 0) (Var i) s = Some r" by simp
  then show "walks s (Var i) r" unfolding walks_def by blast
qed

lemma walks_Var_step:
  "lookup s i = Some w \<Longrightarrow> w \<noteq> Var i \<Longrightarrow> walks s (Var i) r \<longleftrightarrow> walks s w r"
proof
  assume l: "lookup s i = Some w" "w \<noteq> Var i" and w: "walks s (Var i) r"
  then obtain n where n: "walk n (Var i) s = Some r" unfolding walks_def by blast
  then obtain m where "n = Suc m" by (cases n) auto
  with n l have "walk m w s = Some r" by (auto split: if_splits)
  then show "walks s w r" unfolding walks_def by blast
next
  assume l: "lookup s i = Some w" "w \<noteq> Var i" and w: "walks s w r"
  then obtain m where "walk m w s = Some r" unfolding walks_def by blast
  with l have "walk (Suc m) (Var i) s = Some r" by auto
  then show "walks s (Var i) r" unfolding walks_def by blast
qed

lemma walks_self_bound:
  assumes x: "lookup s x = Some (Var x)" and t: "t \<noteq> Var x" and xp: "x \<noteq> ''__proto__''"
    and tv: "is_Var t \<Longrightarrow> lookup s (var_id t) = Some t"
  shows "walks (s(x \<mapsto> t)) t t"
proof (cases t)
  case (Var j)
  with t tv have "j \<noteq> x" "lookup s j = Some (Var j)" by auto
  then have "lookup (s(x \<mapsto> t)) j = Some (Var j)" using xp by (simp add: lookup_upd)
  with Var show ?thesis by (simp add: walks_Var_self)
qed (simp_all add: walks_nonVar)

lemma walk_nonVar: "\<not> is_Var a \<Longrightarrow> walk n a s = Some a"
  by (cases a) simp_all

lemma walk_bind:
  assumes x: "lookup s x = Some (Var x)" and t: "t \<noteq> Var x" and xp: "x \<noteq> ''__proto__''"
    and tv: "is_Var t \<Longrightarrow> lookup s (var_id t) = Some t"
  shows "walk n a s = Some r \<Longrightarrow> walks (s(x \<mapsto> t)) a (if r = Var x then t else r)"
proof (induction n arbitrary: a)
  case 0
  show ?case
  proof (cases "is_Var a")
    case True
    then obtain i where "a = Var i" by (cases a) auto
    with 0 show ?thesis by simp
  next
    case False
    with 0 have "r = a" by (simp add: walk_nonVar)
    with False show ?thesis by (auto simp: walks_nonVar)
  qed
next
  case (Suc m)
  show ?case
  proof (cases "is_Var a")
    case nv: False
    with Suc.prems have "r = a" by (simp add: walk_nonVar)
    with nv show ?thesis by (auto simp: walks_nonVar)
  next
    case True
    then obtain i where Var: "a = Var i" by (cases a) auto
    let ?s' = "s(x \<mapsto> t)"
    from Suc.prems Var obtain w where lw: "lookup s i = Some w"
      by (auto split: option.splits)
    show ?thesis
    proof (cases "w = Var i")
      case True
      with Suc.prems Var lw have r: "r = Var i" by simp
      show ?thesis
      proof (cases "i = x")
        case True
        have l': "lookup ?s' x = Some t" using xp by (simp add: lookup_upd)
        have "walks ?s' (Var x) t \<longleftrightarrow> walks ?s' t t"
          using l' t by (rule walks_Var_step)
        then have "walks ?s' (Var x) t"
          using walks_self_bound[OF x t xp tv] by simp
        with r True Var show ?thesis by (simp del: fun_upd_apply)
      next
        case False
        with True lw have "lookup ?s' i = Some (Var i)" using xp by (simp add: lookup_upd)
        then have "walks ?s' (Var i) (Var i)" using walks_Var_self by blast
        with r False Var show ?thesis by (simp del: fun_upd_apply)
      qed
    next
      case False
      with Suc.prems Var lw have w: "walk m w s = Some r" by simp
      from False x lw have ne: "i \<noteq> x" by auto
      then have l: "lookup ?s' i = Some w" using xp lw by (simp add: lookup_upd)
      from Suc.IH[OF w] have "walks ?s' w (if r = Var x then t else r)" .
      then have "walks ?s' (Var i) (if r = Var x then t else r)"
        using walks_Var_step[OF l False] by simp
      with Var show ?thesis by blast
    qed
  qed
qed

lemma carries_refl: "carries s s"
  unfolding carries_def by (rule exI[of _ "\<lambda>r. r"]) simp

lemma carries_trans:
  assumes "carries s t" and "carries t u"
  shows "carries s u"
proof -
  from assms(1) obtain f where f1: "\<And>r. \<not> is_Var r \<Longrightarrow> f r = r"
    and f2: "\<And>a r. walks s a r \<Longrightarrow> walks t a (f r)"
    unfolding carries_def by auto
  from assms(2) obtain g where g1: "\<And>r. \<not> is_Var r \<Longrightarrow> g r = r"
    and g2: "\<And>a r. walks t a r \<Longrightarrow> walks u a (g r)"
    unfolding carries_def by auto
  have "\<forall>r. \<not> is_Var r \<longrightarrow> g (f r) = r"
    by (simp add: f1 g1)
  moreover have "\<forall>a r. walks s a r \<longrightarrow> walks u a (g (f r))"
    using f2 g2 by blast
  ultimately show ?thesis
    unfolding carries_def by (intro exI[of _ "\<lambda>r. g (f r)"] conjI)
qed

lemma carries_bind:
  assumes x: "lookup s x = Some (Var x)" and t: "t \<noteq> Var x" and xp: "x \<noteq> ''__proto__''"
    and tv: "is_Var t \<Longrightarrow> lookup s (var_id t) = Some t"
  shows "carries s (s(x \<mapsto> t))"
  unfolding carries_def
proof (intro exI[of _ "\<lambda>r. if r = Var x then t else r"] conjI allI impI)
  fix r :: val assume "\<not> is_Var r" then show "(if r = Var x then t else r) = r" by auto
next
  fix a r assume "walks s a r"
  then show "walks (s(x \<mapsto> t)) a (if r = Var x then t else r)"
    unfolding walks_def[of s] using walk_bind[OF x t xp tv] by blast
qed

lemma carries_nonVar: "carries s s' \<Longrightarrow> walks s a r \<Longrightarrow> \<not> is_Var r \<Longrightarrow> walks s' a r"
  unfolding carries_def by metis

lemma struct_eq_carries:
  assumes c: "carries s s'"
  shows "struct_eq h s a b \<Longrightarrow> struct_eq h s' a b"
proof (induction rule: struct_eq.induct)
  case (same a r b)
  from c obtain f where "\<forall>a r. walks s a r \<longrightarrow> walks s' a (f r)"
    unfolding carries_def by blast
  with same have "walks s' a (f r)" "walks s' b (f r)" by blast+
  then show ?case by (rule struct_eq.same)
next
  case (seqs a p b q)
  have "walks s' a (Arr p)" "walks s' b (Arr q)"
    using carries_nonVar[OF c] seqs(1,2) by auto
  moreover have "list_all2 (struct_eq h s') (h p) (h q)"
    using seqs(3) by (rule list_all2_mono) simp
  ultimately show ?case by (rule struct_eq.seqs)
qed

lemma bind_sound:
  assumes p: "plain s"
    and wu: "walks s u (Var i)" and wv: "walks s v v'" and ne: "v' \<noteq> Var i"
  shows "extend s [i \<mapsto> v'] = s(i \<mapsto> v') \<and> plain (s(i \<mapsto> v'))
    \<and> carries s (s(i \<mapsto> v')) \<and> struct_eq h (s(i \<mapsto> v')) u v
    \<and> struct_eq h (s(i \<mapsto> v')) v u"
proof -
  have x: "lookup s i = Some (Var i)" using wu by (rule walks_Var_end)
  have xp: "i \<noteq> ''__proto__''" using p x by (rule unbound_not_proto)
  have tv: "is_Var v' \<Longrightarrow> lookup s (var_id v') = Some v'"
  proof -
    assume "is_Var v'"
    then obtain j where j: "v' = Var j" by (cases v') auto
    with wv have "lookup s j = Some (Var j)" using walks_Var_end by blast
    with j show ?thesis by simp
  qed
  have t: "v' \<noteq> Var i" by (rule ne)
  from wu obtain n where "walk n u s = Some (Var i)" unfolding walks_def by blast
  from walk_bind[OF x t xp tv this] have 1: "walks (s(i \<mapsto> v')) u v'" by simp
  from wv obtain m where "walk m v s = Some v'" unfolding walks_def by blast
  from walk_bind[OF x t xp tv this] ne have 2: "walks (s(i \<mapsto> v')) v v'" by simp
  from 1 2 have "struct_eq h (s(i \<mapsto> v')) u v" by (rule struct_eq.same)
  moreover from 2 1 have "struct_eq h (s(i \<mapsto> v')) v u" by (rule struct_eq.same)
  moreover have "carries s (s(i \<mapsto> v'))" using x t xp tv by (rule carries_bind)
  moreover have "extend s [i \<mapsto> v'] = s(i \<mapsto> v')"
    using p xp by (simp add: extend_plain plain_def)
  moreover have "plain (s(i \<mapsto> v'))" using p xp by (simp add: plain_def)
  ultimately show ?thesis by blast
qed

lemma unify_sound_aux:
  shows "unify n h u v s = Some (Some s') \<Longrightarrow> plain s \<Longrightarrow>
      plain s' \<and> carries s s' \<and> struct_eq h s' u v"
    and "unify_elems n h xs ys t = Some (Some s') \<Longrightarrow> length xs = length ys \<Longrightarrow> plain t \<Longrightarrow>
      plain s' \<and> carries t s' \<and> list_all2 (struct_eq h s') xs ys"
proof (induction n h u v s and n h xs ys t arbitrary: s' and s'
    rule: unify_unify_elems.induct)
  case (1 h u v s)
  then show ?case by simp
next
  case (2 n h u v s)
  note pl = "2.prems"(2)
  from "2.prems"(1) obtain u' v' where u: "walk n u s = Some u'" and v: "walk n v s = Some v'"
    by (auto split: option.splits)
  have wu: "walks s u u'" and wv: "walks s v v'" using u v walks_def by blast+
  show ?case
  proof (cases "u' = v'")
    case True
    with "2.prems"(1) u v have "s' = s" by simp
    moreover have "struct_eq h s u v" using wu wv True struct_eq.same by blast
    ultimately show ?thesis using carries_refl pl by blast
  next
    case ne: False
    show ?thesis
    proof (cases "is_Var u'")
      case True
      then obtain i where i: "u' = Var i" by (cases u') auto
      with "2.prems"(1) u v ne have s': "s' = extend s [i \<mapsto> v']" by simp
      from ne i have "v' \<noteq> Var i" by auto
      note b = bind_sound[OF pl wu[unfolded i] wv this, of h]
      from s' have "s' = s(i \<mapsto> v')" unfolding b[THEN conjunct1] .
      with b show ?thesis by blast
    next
      case nu: False
      show ?thesis
      proof (cases "is_Var v'")
        case True
        then obtain j where j: "v' = Var j" by (cases v') auto
        with "2.prems"(1) u v ne nu have s': "s' = extend s [j \<mapsto> u']" by simp
        from ne j have "u' \<noteq> Var j" by auto
        note b = bind_sound[OF pl wv[unfolded j] wu this, of h]
        from s' have "s' = s(j \<mapsto> u')" unfolding b[THEN conjunct1] .
        with b show ?thesis by blast
      next
        case nv: False
        show ?thesis
        proof (cases "is_Arr u' \<and> is_Arr v' \<and> length (h (addr u')) = length (h (addr v'))")
          case True
          with "2.prems"(1) u v ne nu nv
          have el: "unify_elems n h (h (addr u')) (h (addr v')) s = Some (Some s')" by simp
          from True have len: "length (h (addr u')) = length (h (addr v'))" by simp
          from True have arr: "is_Arr u' \<and> is_Arr v'" by simp
          from "2.IH"[OF u v ne nu nv arr len el len pl]
          have ps: "plain s'" and c: "carries s s'"
            and l: "list_all2 (struct_eq h s') (h (addr u')) (h (addr v'))" by simp_all
          from True obtain p q where pq: "u' = Arr p" "v' = Arr q"
            by (cases u'; cases v') auto
          have "walks s' u (Arr p)" "walks s' v (Arr q)"
            using carries_nonVar[OF c] wu wv pq by auto
          moreover have "list_all2 (struct_eq h s') (h p) (h q)" using l pq by simp
          ultimately have "struct_eq h s' u v" by (rule struct_eq.seqs)
          with c ps show ?thesis by blast
        next
          case False
          with "2.prems"(1) u v ne nu nv show ?thesis by (auto split: if_splits)
        qed
      qed
    qed
  qed
next
  case (3 n h x xs y ys t)
  from "3.prems"(1) obtain t' where x: "unify n h x y t = Some (Some t')"
    and r: "unify_elems n h xs ys t' = Some (Some s')"
    by (auto split: option.splits)
  from "3.prems"(2) have len: "length xs = length ys" by simp
  from "3.IH"(1)[OF x "3.prems"(3)]
  have p1: "plain t'" and c1: "carries t t'" and e1: "struct_eq h t' x y" by simp_all
  from "3.IH"(2)[OF x refl r len p1] have p2: "plain s'" and c2: "carries t' s'"
    and e2: "list_all2 (struct_eq h s') xs ys" by simp_all
  from c1 c2 have "carries t s'" by (rule carries_trans)
  moreover from e1 have "struct_eq h s' x y" using struct_eq_carries[OF c2] by blast
  ultimately show ?case using e2 p2 by simp
qed (simp_all add: carries_refl)

text \<open>
  Away from the prototype \<^verbatim>\<open>unify\<close> is sound: on a state whose prototype is
  \<^verbatim>\<open>Object.prototype\<close>, whatever its keys, a returned state has that prototype too, and in
  it the two terms walk to values that are equal up to structure.
\<close>

lemma unify_sound_plain:
  "plain s \<Longrightarrow> unify n h u v s = Some (Some s') \<Longrightarrow> plain s' \<and> struct_eq h s' u v"
  using unify_sound_aux(1) by blast

text \<open>
  Claim C1, at the input \<^verbatim>\<open>unifyCheck([x], [[x]], {x: x})\<close>. Neither occurs check finds
  anything, since both compare an array with the variable; \<^verbatim>\<open>unify\<close> then binds \<open>x\<close>
  to the inner array, whose element is \<open>x\<close> itself. At the top level the check does
  work: \<^verbatim>\<open>unifyCheck(x, [x], {x: x})\<close> fails.
\<close>

theorem unifyCheck_binds_cyclic:
  "unifyCheck 5 nested_heap (Arr 0) (Arr 2) [''x'' \<mapsto> Var ''x'']
     = Some (Some [''x'' \<mapsto> Arr 1])
   \<and> nested_heap 1 = [Var ''x'']
   \<and> unifyCheck 5 nested_heap (Var ''x'') (Arr 0) [''x'' \<mapsto> Var ''x''] = Some None"
  by (simp add: unifyCheck_def nested_heap_def eval_nat_numeral lookup_def extend_plain)


section \<open>Interleaving: \<^verbatim>\<open>disji\<close> and \<^verbatim>\<open>condi\<close>\<close>

lemma rr_empty: "round_robin [] i = Done"
  by (subst round_robin.code) (simp add: advance.simps)

lemma rr_wrap: "length its \<le> i \<Longrightarrow> round_robin its i = round_robin its 0"
proof (cases "its = []")
  case True
  then show ?thesis by (simp add: rr_empty)
next
  case False
  assume "length its \<le> i"
  with False have "advance its i = advance its 0" by (subst advance.simps) simp
  then show ?thesis by (subst round_robin.code, subst (2) round_robin.code) simp
qed

lemma rr_done:
  assumes "i < length its" and "its ! i = Done"
  shows "round_robin its i = round_robin (take i its @ drop (Suc i) its) i"
proof -
  from assms have "advance its i = advance (take i its @ drop (Suc i) its) i"
    by (subst advance.simps) auto
  then show ?thesis by (subst round_robin.code, subst (2) round_robin.code) simp
qed

lemma rr_yield:
  assumes "i < length its" and "its ! i = Yield v g"
  shows "round_robin its i = Yield v (round_robin (its[i := g]) (Suc i))"
proof -
  from assms have "advance its i = (its, i)"
    by (subst advance.simps) auto
  with assms show ?thesis by (subst round_robin.code) auto
qed

lemma heads_append: "heads (xs @ ys) = heads xs @ heads ys"
  by (induction xs) (auto split: gen.splits)

lemma tails_append: "tails (xs @ ys) = tails xs @ tails ys"
  by (induction xs) (auto split: gen.splits)

lemma length_tails: "length (tails xs) = length (heads xs)"
  by (induction xs) (auto split: gen.splits)

lemma length_heads_le: "length (heads xs) \<le> length xs"
  by (induction xs) (auto split: gen.splits)

lemma rr_round_from:
  "i \<le> length its \<Longrightarrow> \<forall>g\<in>set (drop i its). \<not> is_Abort g \<Longrightarrow>
   round_robin its i =
     gprepend (heads (drop i its)) (round_robin (take i its @ tails (drop i its)) 0)"
proof (induction "length its - i" arbitrary: its i)
  case 0
  then have "i = length its" by simp
  then show ?case using rr_wrap[of its i] by simp
next
  case (Suc n)
  then have lt: "i < length its" by simp
  then have d: "drop i its = its ! i # drop (Suc i) its" by (simp add: Cons_nth_drop_Suc)
  show ?case
  proof (cases "its ! i")
    case Done
    let ?its = "take i its @ drop (Suc i) its"
    have l: "length ?its = length its - 1" using lt by simp
    have a: "n = length ?its - i" using Suc(2) lt by simp
    have b: "i \<le> length ?its" using lt by simp
    have dr: "drop i ?its = drop (Suc i) its" using lt by simp
    have c: "\<forall>g\<in>set (drop i ?its). \<not> is_Abort g" using Suc.prems(2) d dr by simp
    have ih: "round_robin ?its i =
        gprepend (heads (drop i ?its)) (round_robin (take i ?its @ tails (drop i ?its)) 0)"
      using a b c by (rule Suc(1))
    have tk: "take i ?its = take i its" using lt by simp
    have hd: "heads (drop i its) = heads (drop (Suc i) its)" using d Done by simp
    have tl: "tails (drop i its) = tails (drop (Suc i) its)" using d Done by simp
    have "round_robin its i = round_robin ?its i" by (rule rr_done[OF lt Done])
    also note ih
    finally show ?thesis unfolding dr tk hd tl .
  next
    case (Yield v g)
    let ?its = "its[i := g]"
    have a: "n = length ?its - Suc i" using Suc(2) by simp
    have b: "Suc i \<le> length ?its" using lt by simp
    have dr: "drop (Suc i) ?its = drop (Suc i) its" by simp
    have c: "\<forall>g\<in>set (drop (Suc i) ?its). \<not> is_Abort g" using Suc.prems(2) d dr by simp
    have ih: "round_robin ?its (Suc i) =
        gprepend (heads (drop (Suc i) ?its))
          (round_robin (take (Suc i) ?its @ tails (drop (Suc i) ?its)) 0)"
      using a b c by (rule Suc(1))
    have tk: "take (Suc i) ?its = take i its @ [g]"
      using lt by (simp add: take_Suc_conv_app_nth)
    have hd: "heads (drop i its) = v # heads (drop (Suc i) its)" using d Yield by simp
    have tl: "tails (drop i its) = g # tails (drop (Suc i) its)" using d Yield by simp
    have "round_robin its i = Yield v (round_robin ?its (Suc i))" by (rule rr_yield[OF lt Yield])
    then show ?thesis unfolding ih dr tk hd tl by simp
  next
    case (Abort e)
    with Suc.prems(2) d show ?thesis by simp
  qed
qed

lemma rr_round:
  "\<forall>g\<in>set its. \<not> is_Abort g \<Longrightarrow>
   round_robin its 0 = gprepend (heads its) (round_robin (tails its) 0)"
  using rr_round_from[of 0 its] by simp


lemma gnth_gprepend_lt: "k < length xs \<Longrightarrow> gnth (gprepend xs g) k = Some (xs ! k)"
proof (induction xs arbitrary: k)
  case Nil
  then show ?case by simp
next
  case (Cons x xs)
  then show ?case by (cases k) simp_all
qed

lemma gnth_gprepend_ge: "gnth (gprepend xs g) (length xs + k) = gnth g k"
  by (induction xs) simp_all

lemma no_abort_head: "no_abort (Suc d) g \<Longrightarrow> \<not> is_Abort g"
  by (cases g) simp_all

lemma no_abort_tails:
  "\<forall>g\<in>set its. no_abort (Suc d) g \<Longrightarrow> \<forall>g\<in>set (tails its). no_abort d g"
  by (induction its) (auto split: gen.splits)

lemma has_len_tails:
  "\<forall>g\<in>set its. has_len (Suc d) g \<Longrightarrow> \<forall>g\<in>set (tails its). has_len d g"
  by (induction its) (auto split: gen.splits)

lemma has_len_heads:
  "\<forall>g\<in>set its. has_len (Suc d) g \<Longrightarrow> length (heads its) = length its"
  by (induction its) (auto split: gen.splits)

lemma has_len_no_abort: "has_len d g \<Longrightarrow> no_abort d g"
  by (induction d arbitrary: g) (auto split: gen.splits)

lemma has_len_gnth: "has_len (Suc d) g \<Longrightarrow> \<exists>x. gnth g d = Some x"
  by (induction d arbitrary: g) (auto split: gen.splits)

lemma split_at:
  assumes "j < length its" and "its ! j = Yield v g"
  shows "heads its = heads (take j its) @ v # heads (drop (Suc j) its)"
    and "tails its = tails (take j its) @ g # tails (drop (Suc j) its)"
proof -
  have "its = take j its @ Yield v g # drop (Suc j) its"
    using assms by (metis id_take_nth_drop)
  then have h: "heads its = heads (take j its @ Yield v g # drop (Suc j) its)"
    and t: "tails its = tails (take j its @ Yield v g # drop (Suc j) its)" by simp_all
  show "heads its = heads (take j its) @ v # heads (drop (Suc j) its)"
    unfolding h[unfolded heads_append] by simp
  show "tails its = tails (take j its) @ g # tails (drop (Suc j) its)"
    unfolding t[unfolded tails_append] by simp
qed

lemma pos_correct:
  "j < length its \<Longrightarrow> gnth (its ! j) d = Some x \<Longrightarrow> \<forall>g\<in>set its. no_abort (Suc d) g \<Longrightarrow>
   gnth (round_robin its 0) (pos its j d) = Some x"
proof (induction d arbitrary: its j)
  case 0
  from 0(2) obtain g where y: "its ! j = Yield x g" by (cases "its ! j") simp_all
  have na: "\<forall>g\<in>set its. \<not> is_Abort g" using 0(3) no_abort_head by blast
  have h: "heads its = heads (take j its) @ x # heads (drop (Suc j) its)"
    using split_at(1)[OF 0(1) y] .
  then have "length (heads (take j its)) < length (heads its)" by simp
  moreover have "heads its ! length (heads (take j its)) = x" by (subst h) simp
  ultimately show ?case
    unfolding rr_round[OF na] by (simp add: gnth_gprepend_lt)
next
  case (Suc d)
  from Suc.prems(2) obtain y g where y: "its ! j = Yield y g" and g: "gnth g d = Some x"
    by (cases "its ! j") simp_all
  have na: "\<forall>g\<in>set its. \<not> is_Abort g" using Suc.prems(3) no_abort_head by blast
  let ?j = "length (heads (take j its))"
  have t: "tails its = tails (take j its) @ g # tails (drop (Suc j) its)"
    using split_at(2)[OF Suc.prems(1) y] .
  have lj: "?j = length (tails (take j its))" by (simp add: length_tails)
  have 1: "?j < length (tails its)" by (subst t) (simp add: lj)
  have "tails its ! ?j = g" by (subst t) (simp add: lj)
  then have 2: "gnth (tails its ! ?j) d = Some x" using g by simp
  have 3: "\<forall>g\<in>set (tails its). no_abort (Suc d) g"
    using no_abort_tails[OF Suc.prems(3)] .
  from Suc.IH[OF 1 2 3] show ?case
    unfolding rr_round[OF na] by (simp add: gnth_gprepend_ge)
qed

lemma pos_le: "pos its j d \<le> length its * d + j"
proof (induction d arbitrary: its j)
  case 0
  have "length (heads (take j its)) \<le> length (take j its)" by (rule length_heads_le)
  then show ?case by simp
next
  case (Suc d)
  have a: "length (heads its) \<le> length its" by (rule length_heads_le)
  have b: "length (heads (take j its)) \<le> j"
    using length_heads_le[of "take j its"] by simp
  have "pos (tails its) (length (heads (take j its))) d
      \<le> length (tails its) * d + length (heads (take j its))" by (rule Suc.IH)
  also have "\<dots> \<le> length its * d + j"
    using a b by (simp add: length_tails add_mono mult_le_mono1)
  finally show ?case using a by simp
qed

lemma pos_exact:
  "\<forall>g\<in>set its. has_len (Suc d) g \<Longrightarrow> j \<le> length its \<Longrightarrow> pos its j d = length its * d + j"
proof (induction d arbitrary: its j)
  case 0
  have "\<forall>g\<in>set (take j its). has_len (Suc 0) g" using 0(1) by (meson in_set_takeD)
  from has_len_heads[OF this] 0(2) show ?case by simp
next
  case (Suc d)
  have h: "\<forall>g\<in>set its. has_len (Suc 0) g" using Suc.prems(1) by (auto split: gen.splits)
  have a: "length (heads its) = length its" by (rule has_len_heads[OF h])
  have "\<forall>g\<in>set (take j its). has_len (Suc 0) g" using h by (meson in_set_takeD)
  from has_len_heads[OF this] Suc.prems(2)
  have b: "length (heads (take j its)) = j" by simp
  have c: "\<forall>g\<in>set (tails its). has_len (Suc d) g" by (rule has_len_tails[OF Suc.prems(1)])
  have "j \<le> length (tails its)" using Suc.prems(2) a by (simp add: length_tails)
  from Suc.IH[OF c this] show ?case by (simp add: a b length_tails)
qed

lemma rr_fair:
  assumes "j < length its" and "gnth (its ! j) d = Some x"
    and "\<forall>g\<in>set its. no_abort (Suc d) g"
  shows "\<exists>k<length its * Suc d. gnth (round_robin its 0) k = Some x"
proof -
  have "pos its j d \<le> length its * d + j" by (rule pos_le)
  with assms(1) have "pos its j d < length its * Suc d" by simp
  with pos_correct[OF assms] show ?thesis by blast
qed

lemma has_len_mono: "has_len a g \<Longrightarrow> b \<le> a \<Longrightarrow> has_len b g"
proof (induction b arbitrary: a g)
  case 0
  then show ?case by simp
next
  case (Suc b)
  then obtain a' where "a = Suc a'" by (cases a) simp_all
  with Suc show ?case by (auto split: gen.splits)
qed

lemma rr_prefix:
  assumes "\<forall>g\<in>set its. has_len (Suc r) g" and "k < length its * Suc r"
  shows "gnth (round_robin its 0) k = gnth (its ! (k mod length its)) (k div length its)"
proof -
  let ?m = "length its"
  from assms(2) have m: "0 < ?m" by (cases its) simp_all
  let ?j = "k mod ?m" and ?d = "k div ?m"
  have j: "?j < ?m" using m by simp
  have d: "?d \<le> r" using assms(2) m
    by (metis less_Suc_eq_le less_mult_imp_div_less mult.commute)
  have hl: "\<forall>g\<in>set its. has_len (Suc ?d) g"
  proof
    fix g assume "g \<in> set its"
    with assms(1) have "has_len (Suc r) g" by blast
    then show "has_len (Suc ?d) g" using d has_len_mono[of "Suc r" g "Suc ?d"] by simp
  qed
  from hl j have "has_len (Suc ?d) (its ! ?j)" by simp
  then obtain x where x: "gnth (its ! ?j) ?d = Some x" using has_len_gnth by blast
  have na: "\<forall>g\<in>set its. no_abort (Suc ?d) g" using hl has_len_no_abort by blast
  have "pos its ?j ?d = ?m * ?d + ?j" using pos_exact[OF hl] j by simp
  then have "pos its ?j ?d = k" by simp
  with pos_correct[OF j x na] x show ?thesis by simp
qed

lemma rr_abort:
  assumes "i < length its" and "its ! i = Abort e"
  shows "round_robin its i = Abort e"
proof -
  from assms have "advance its i = (its, i)"
    by (subst advance.simps) auto
  with assms show ?thesis by (subst round_robin.code) auto
qed

text \<open>
  One round of the loop, whatever the streams are: every stream that yields is served
  once, in order, and the exhausted ones are dropped; a pull that does not return ends
  the combined stream after the elements of the streams in front of it.
\<close>

lemma rr_round_abort_from:
  "i \<le> length its \<Longrightarrow>
   round_robin its i =
     (case round_abort (drop i its) of
        None \<Rightarrow> gprepend (heads (drop i its)) (round_robin (take i its @ tails (drop i its)) 0)
      | Some e \<Rightarrow> gprepend (heads (before_abort (drop i its))) (Abort e))"
proof (induction "length its - i" arbitrary: its i)
  case 0
  then have "i = length its" by simp
  then show ?case using rr_wrap[of its i] by simp
next
  case (Suc n)
  then have lt: "i < length its" by simp
  then have d: "drop i its = its ! i # drop (Suc i) its" by (simp add: Cons_nth_drop_Suc)
  show ?case
  proof (cases "its ! i")
    case Done
    let ?its = "take i its @ drop (Suc i) its"
    have a: "n = length ?its - i" using Suc(2) lt by simp
    have b: "i \<le> length ?its" using lt by simp
    have dr: "drop i ?its = drop (Suc i) its" using lt by simp
    have tk: "take i ?its = take i its" using lt by simp
    have ih: "round_robin ?its i =
        (case round_abort (drop i ?its) of
           None \<Rightarrow> gprepend (heads (drop i ?its))
                     (round_robin (take i ?its @ tails (drop i ?its)) 0)
         | Some e \<Rightarrow> gprepend (heads (before_abort (drop i ?its))) (Abort e))"
      using a b by (rule Suc(1))
    have e: "round_abort (drop i its) = round_abort (drop (Suc i) its)"
      "heads (drop i its) = heads (drop (Suc i) its)"
      "tails (drop i its) = tails (drop (Suc i) its)"
      "heads (before_abort (drop i its)) = heads (before_abort (drop (Suc i) its))"
      using d Done by simp_all
    have "round_robin its i = round_robin ?its i" by (rule rr_done[OF lt Done])
    also note ih
    finally show ?thesis unfolding dr tk e .
  next
    case (Yield v g)
    let ?its = "its[i := g]"
    have a: "n = length ?its - Suc i" using Suc(2) by simp
    have b: "Suc i \<le> length ?its" using lt by simp
    have dr: "drop (Suc i) ?its = drop (Suc i) its" by simp
    have tk: "take (Suc i) ?its = take i its @ [g]"
      using lt by (simp add: take_Suc_conv_app_nth)
    have ih: "round_robin ?its (Suc i) =
        (case round_abort (drop (Suc i) ?its) of
           None \<Rightarrow> gprepend (heads (drop (Suc i) ?its))
                     (round_robin (take (Suc i) ?its @ tails (drop (Suc i) ?its)) 0)
         | Some e \<Rightarrow> gprepend (heads (before_abort (drop (Suc i) ?its))) (Abort e))"
      using a b by (rule Suc(1))
    have e: "round_abort (drop i its) = round_abort (drop (Suc i) its)"
      "heads (drop i its) = v # heads (drop (Suc i) its)"
      "tails (drop i its) = g # tails (drop (Suc i) its)"
      "heads (before_abort (drop i its)) = v # heads (before_abort (drop (Suc i) its))"
      using d Yield by simp_all
    have "round_robin its i = Yield v (round_robin ?its (Suc i))" by (rule rr_yield[OF lt Yield])
    then show ?thesis unfolding ih dr tk e by (simp split: option.splits)
  next
    case (Abort e)
    have "round_robin its i = Abort e" by (rule rr_abort[OF lt Abort])
    then show ?thesis using d Abort by simp
  qed
qed

lemma rr_round_abort:
  "round_robin its 0 =
     (case round_abort its of
        None \<Rightarrow> gprepend (heads its) (round_robin (tails its) 0)
      | Some e \<Rightarrow> gprepend (heads (before_abort its)) (Abort e))"
  using rr_round_abort_from[of 0 its] by (simp split: option.splits)

lemma heads_nth_round: "heads its = nth_round its 0"
  by (induction its) (auto simp: nth_round_def List.map_filter_simps split: gen.splits)

lemma nth_round_Suc: "nth_round its (Suc r) = nth_round (tails its) r"
proof (induction its)
  case Nil
  then show ?case by (simp add: nth_round_def List.map_filter_simps)
next
  case (Cons g its)
  have s: "gnth (Yield v g') (Suc r) = gnth g' r" "gnth Done (Suc r) = None"
    "gnth (Abort e) (Suc r) = None" for v :: 'a and g' e
    by simp_all
  from Cons show ?case
    by (cases g)
      (simp_all add: nth_round_def List.map_filter_simps s del: gnth.simps split: option.splits)
qed

lemma rounds_0: "rounds its 0 = []"
  by (simp add: rounds_def)

lemma rounds_Suc: "rounds its (Suc n) = heads its @ rounds (tails its) n"
proof -
  have "[0..<Suc n] = 0 # map Suc [0..<n]"
    by (simp add: upt_conv_Cons map_Suc_upt del: upt_Suc)
  then have "rounds its (Suc n) = nth_round its 0 @ concat (map (\<lambda>r. nth_round its (Suc r)) [0..<n])"
    unfolding rounds_def by (simp add: comp_def del: upt_Suc)
  then show ?thesis by (simp add: heads_nth_round nth_round_Suc rounds_def)
qed

lemma rounds_Nil: "rounds [] n = []"
  by (induction n) (simp_all add: rounds_0 rounds_Suc)

lemma gnth_gprepend:
  "gnth (gprepend xs g) k = (if k < length xs then Some (xs ! k) else gnth g (k - length xs))"
proof (cases "k < length xs")
  case True
  then show ?thesis by (simp add: gnth_gprepend_lt)
next
  case False
  then obtain d where d: "k = length xs + d" using le_Suc_ex[of "length xs" k] by auto
  then show ?thesis by (simp add: gnth_gprepend_ge)
qed

lemma rr_rounds:
  "\<forall>g\<in>set its. no_abort n g \<Longrightarrow> k < length (rounds its n) \<Longrightarrow>
   gnth (round_robin its 0) k = Some (rounds its n ! k)"
proof (induction n arbitrary: its k)
  case 0
  then show ?case by (simp add: rounds_0)
next
  case (Suc n)
  have na: "\<forall>g\<in>set its. \<not> is_Abort g" using Suc.prems(1) no_abort_head by blast
  have t: "\<forall>g\<in>set (tails its). no_abort n g" by (rule no_abort_tails[OF Suc.prems(1)])
  show ?case
  proof (cases "k < length (heads its)")
    case True
    then show ?thesis
      unfolding rr_round[OF na] rounds_Suc by (simp add: gnth_gprepend nth_append)
  next
    case False
    then have "k - length (heads its) < length (rounds (tails its) n)"
      using Suc.prems(2) unfolding rounds_Suc by simp
    from Suc.IH[OF t this] False show ?thesis
      unfolding rr_round[OF na] rounds_Suc by (simp add: gnth_gprepend nth_append)
  qed
qed

lemma single_rounds:
  "no_abort n g \<Longrightarrow> k < length (rounds [g] n) \<Longrightarrow> gnth g k = Some (rounds [g] n ! k)"
proof (induction n arbitrary: g k)
  case 0
  then show ?case by (simp add: rounds_0)
next
  case (Suc n)
  show ?case
  proof (cases g)
    case Done
    with Suc.prems(2) show ?thesis by (simp add: rounds_Suc rounds_Nil)
  next
    case (Yield v g')
    with Suc.prems have a: "no_abort n g'" and b: "k < Suc (length (rounds [g'] n))"
      by (simp_all add: rounds_Suc)
    show ?thesis
    proof (cases k)
      case 0
      with Yield show ?thesis by (simp add: rounds_Suc)
    next
      case (Suc k')
      with b have "k' < length (rounds [g'] n)" by simp
      from Suc.IH[OF a this] Suc Yield show ?thesis by (simp add: rounds_Suc)
    qed
  next
    case (Abort e)
    with Suc.prems(1) show ?thesis by simp
  qed
qed

lemma all_calls_started:
  "\<forall>c\<in>set cs. \<not> is_Abort (started c) \<Longrightarrow> all_calls cs = Inr (map started cs)"
  by (induction cs) (auto simp: started_def split: sum.splits)

lemma interleave_started:
  "\<forall>c\<in>set cs. \<not> is_Abort (started c) \<Longrightarrow> interleave cs = round_robin (map started cs) 0"
  by (simp add: interleave_def all_calls_started)

lemma disji_interleaved:
  assumes "\<forall>g\<in>set goals. \<not> is_Abort (started (g s))"
  shows "started (disji goals s) = interleaved (map (\<lambda>g. started (g s)) goals)"
proof -
  have "\<forall>c\<in>set (map (\<lambda>g. g s) goals). \<not> is_Abort (started c)" using assms by simp
  from interleave_started[OF this]
  have "interleave (map (\<lambda>g. g s) goals) = round_robin (map (\<lambda>g. started (g s)) goals) 0"
    by (simp add: comp_def)
  then show ?thesis
    by (cases goals) (simp_all add: disji_def interleaved_def fail_def started_def)
qed

lemma condi_disji: "condi goals = disji (map clause_goal goals)"
  by (cases goals) (simp_all add: condi_def disji_def comp_def)

lemma interleaved_rounds:
  assumes "\<forall>g\<in>set its. no_abort n g" and "k < length (rounds its n)"
  shows "gnth (interleaved its) k = Some (rounds its n ! k)"
proof (cases "length its = 1")
  case True
  then obtain g where g: "its = [g]" by (cases its) simp_all
  with assms single_rounds[of n g k] show ?thesis by (simp add: interleaved_def)
next
  case False
  moreover from assms(2) have "length its \<noteq> 0" by (auto simp: rounds_Nil)
  ultimately have "interleaved its = round_robin its 0" by (simp add: interleaved_def)
  then show ?thesis using rr_rounds[OF assms] by simp
qed

lemma interleaved_prefix:
  assumes "\<forall>g\<in>set its. has_len (Suc r) g" and "k < length its * Suc r"
  shows "gnth (interleaved its) k = gnth (its ! (k mod length its)) (k div length its)"
proof (cases "length its = 1")
  case True
  then show ?thesis by (simp add: interleaved_def)
next
  case False
  moreover from assms(2) have "length its \<noteq> 0" by auto
  ultimately have "interleaved its = round_robin its 0" by (simp add: interleaved_def)
  then show ?thesis using rr_prefix[OF assms] by simp
qed

lemma interleaved_fair:
  assumes "j < length its" and "gnth (its ! j) d = Some x"
    and "\<forall>g\<in>set its. no_abort (Suc d) g"
  shows "\<exists>k<length its * Suc d. gnth (interleaved its) k = Some x"
proof (cases "length its = 1")
  case True
  with assms(1) have "j = 0" by simp
  with assms(2) True have "gnth (interleaved its) d = Some x" by (simp add: interleaved_def)
  moreover have "d < length its * Suc d" using True by simp
  ultimately show ?thesis by blast
next
  case False
  moreover from assms(1) have "length its \<noteq> 0" by auto
  ultimately have "interleaved its = round_robin its 0" by (simp add: interleaved_def)
  then show ?thesis using rr_fair[OF assms] by simp
qed



lemma xy_plain: "xy_state ''__proto__'' = None" "(xy_state(''x'' \<mapsto> w)) ''__proto__'' = None"
  by (simp_all add: xy_state_def)

lemma x_is_eval: "x_is k xy_state = Inr (Yield (xy_state(''x'' \<mapsto> Num k)) Done)"
proof -
  have "lookup xy_state ''x'' = Some (Var ''x'')" by (simp add: xy_state_def lookup_def)
  then have "unify 2 (\<lambda>_. []) (Var ''x'') (Num k) xy_state
      = Some (Some (extend xy_state [''x'' \<mapsto> Num k]))"
    by (simp add: eval_nat_numeral)
  then show ?thesis by (simp add: x_is_def identical_def extend_plain xy_plain)
qed

lemma started_simps: "started (Inr g) = g" "started (Inl e) = Abort e"
  by (simp_all add: started_def)

lemma gappend_simps:
  "gappend Done b = b"
  "gappend (Yield v a) b = Yield v (gappend a b)"
  "gappend (Abort e) b = Abort e"
  by (subst gappend.code, simp)+

lemma forever_unfold: "forever v = Yield v (forever v)"
  by (subst forever.code) simp

text \<open>
  Claim C6. \<^verbatim>\<open>condi\<close> is \<^verbatim>\<open>disji\<close> on the goals of its clauses, and for \<^verbatim>\<open>disji(g1, ..., gm)\<close>
  on a state \<open>s\<close>:
  \<^item> the pulls go round by round, and round \<open>r\<close> serves, in clause order, every clause that
    still has an element, skipping the exhausted ones: as long as the first \<open>n\<close> pulls of
    every clause return, the combined stream begins with the rounds \<open>0, ..., n - 1\<close>;
  \<^item> while no clause is exhausted (each has at least \<open>r + 1\<close> elements and \<open>k < m (r + 1)\<close>)
    the \<open>k\<close>-th pull is element \<open>k div m\<close> of clause \<open>k mod m\<close>;
  \<^item> if clause \<open>j\<close> yields \<open>x\<close> at depth \<open>d\<close> and the first \<open>d + 1\<close> pulls of every clause
    return, the combined stream yields \<open>x\<close> within its first \<open>m (d + 1)\<close> pulls, whatever
    the length of the other streams.
\<close>

theorem disji_round_robin:
  "condi clauses = disji (map clause_goal clauses)
   \<and> ((\<forall>g\<in>set goals. no_abort n (started (g s)))
        \<and> i < length (rounds (map (\<lambda>g. started (g s)) goals) n) \<longrightarrow>
      gnth (started (disji goals s)) i = Some (rounds (map (\<lambda>g. started (g s)) goals) n ! i))
   \<and> ((\<forall>g\<in>set goals. has_len (Suc r) (started (g s))) \<and> k < length goals * Suc r \<longrightarrow>
      gnth (started (disji goals s)) k
        = gnth (started ((goals ! (k mod length goals)) s)) (k div length goals))
   \<and> (j < length goals \<and> gnth (started ((goals ! j) s)) d = Some x
        \<and> (\<forall>g\<in>set goals. no_abort (Suc d) (started (g s))) \<longrightarrow>
      (\<exists>k<length goals * Suc d. gnth (started (disji goals s)) k = Some x))"
proof -
  let ?its = "map (\<lambda>g. started (g s)) goals"
  have rd: "gnth (started (disji goals s)) i = Some (rounds ?its n ! i)"
    if a: "\<forall>g\<in>set goals. no_abort n (started (g s))" and b: "i < length (rounds ?its n)"
  proof -
    from b obtain n' where n: "n = Suc n'" by (cases n) (simp_all add: rounds_0)
    have "\<forall>g\<in>set goals. \<not> is_Abort (started (g s))"
      using a no_abort_head unfolding n by blast
    then have c: "started (disji goals s) = interleaved ?its" by (rule disji_interleaved)
    have "\<forall>g\<in>set ?its. no_abort n g" using a by simp
    from interleaved_rounds[OF this b] show ?thesis unfolding c .
  qed
  have p: "gnth (started (disji goals s)) k
        = gnth (started ((goals ! (k mod length goals)) s)) (k div length goals)"
    if "\<forall>g\<in>set goals. has_len (Suc r) (started (g s))" and "k < length goals * Suc r"
  proof -
    have a: "\<forall>g\<in>set ?its. has_len (Suc r) g" using that(1) by simp
    have b: "k < length ?its * Suc r" using that(2) by simp
    have "\<forall>g\<in>set goals. \<not> is_Abort (started (g s))"
      using that(1) has_len_no_abort no_abort_head by blast
    then have c: "started (disji goals s) = interleaved ?its" by (rule disji_interleaved)
    have "0 < length goals" using that(2) by (cases goals) simp_all
    then have "k mod length goals < length goals" by simp
    then have "?its ! (k mod length ?its) = started ((goals ! (k mod length goals)) s)" by simp
    with interleaved_prefix[OF a b] show ?thesis unfolding c by simp
  qed
  have f: "\<exists>k<length goals * Suc d. gnth (started (disji goals s)) k = Some x"
    if "j < length goals" and "gnth (started ((goals ! j) s)) d = Some x"
      and "\<forall>g\<in>set goals. no_abort (Suc d) (started (g s))"
  proof -
    have a: "j < length ?its" using that(1) by simp
    have b: "gnth (?its ! j) d = Some x" using that(1,2) by simp
    have c: "\<forall>g\<in>set ?its. no_abort (Suc d) g" using that(3) by simp
    have "\<forall>g\<in>set goals. \<not> is_Abort (started (g s))"
      using that(3) no_abort_head by blast
    then have e: "started (disji goals s) = interleaved ?its" by (rule disji_interleaved)
    from interleaved_fair[OF a b c] show ?thesis unfolding e by simp
  qed
  show ?thesis using condi_disji rd p f by blast
qed

theorem disji_round_robin_witness:
  "condi [Bare always, Clause [x_is 6]] = disji [always, x_is 6]
   \<and> rounds (map (\<lambda>g. started (g xy_state)) [always, x_is 6]) 1
       = [xy_state, xy_state(''x'' \<mapsto> Num 6)]
   \<and> gnth (started (disji [always, x_is 6] xy_state)) 0 = Some xy_state
   \<and> gnth (started (disji [always, x_is 6] xy_state)) 1 = Some (xy_state(''x'' \<mapsto> Num 6))
   \<and> (\<exists>k<2. gnth (started (disji [always, x_is 6] xy_state)) k
        = Some (xy_state(''x'' \<mapsto> Num 6)))"
proof -
  let ?six = "xy_state(''x'' \<mapsto> Num 6)"
  let ?gs = "[always, x_is 6]"
  let ?its = "map (\<lambda>g. started (g xy_state)) ?gs"
  have its: "?its = [forever xy_state, Yield ?six Done]"
    by (simp add: always_def x_is_eval started_simps)
  have f: "has_len (Suc 0) (forever xy_state)" "no_abort (Suc 0) (forever xy_state)"
    by (subst forever_unfold, simp)+
  have x: "has_len (Suc 0) (started (x_is 6 xy_state))"
    "no_abort (Suc 0) (started (x_is 6 xy_state))"
    "gnth (started (x_is 6 xy_state)) 0 = Some ?six"
    by (simp_all add: x_is_eval started_simps)
  have a: "started (always xy_state) = forever xy_state" by (simp add: always_def started_simps)
  have "heads [forever xy_state, Yield ?six Done] = [xy_state, ?six]"
    by (subst forever_unfold) simp
  then have r: "rounds ?its (Suc 0) = [xy_state, ?six]"
    unfolding its by (simp add: rounds_Suc rounds_0)
  have c: "map clause_goal [Bare always, Clause [x_is 6]] = ?gs"
    by (simp add: clause_goal_def)
  note t = disji_round_robin[of "[Bare always, Clause [x_is 6]]" ?gs "Suc 0" xy_state _ 0 1 1 0 ?six]
  have na: "\<forall>g\<in>set ?gs. no_abort (Suc 0) (started (g xy_state))" using f x a by simp
  have hl: "\<forall>g\<in>set ?gs. has_len (Suc 0) (started (g xy_state))" using f x a by simp
  from t have r0: "condi [Bare always, Clause [x_is 6]] = disji ?gs" unfolding c by blast
  from t[of 0] na r have "gnth (started (disji ?gs xy_state)) 0 = Some (rounds ?its (Suc 0) ! 0)"
    by simp
  then have r1: "gnth (started (disji ?gs xy_state)) 0 = Some xy_state" unfolding r by simp
  have "(1::nat) < length ?gs * Suc 0" by simp
  with t[of 0] hl have "gnth (started (disji ?gs xy_state)) 1
      = gnth (started ((?gs ! (1 mod length ?gs)) xy_state)) (1 div length ?gs)" by blast
  then have r2: "gnth (started (disji ?gs xy_state)) 1 = Some ?six" using x(3) by simp
  have "(1::nat) < length ?gs \<and> gnth (started ((?gs ! 1) xy_state)) 0 = Some ?six"
    using x(3) by simp
  with t[of 0] na have "\<exists>k<length ?gs * Suc 0. gnth (started (disji ?gs xy_state)) k = Some ?six"
    by blast
  then have r3: "\<exists>k<2. gnth (started (disji ?gs xy_state)) k = Some ?six"
    by (simp add: numeral_2_eq_2)
  have r4: "rounds ?its 1 = [xy_state, ?six]" using r by simp
  from r0 r1 r2 r3 r4 show ?thesis by blast
qed

text \<open>
  A clause whose call throws ends \<^verbatim>\<open>disji\<close> at its first pull, wherever the clause stands:
  all the goals are called before the first generator is pulled. \<^verbatim>\<open>disj\<close> calls a goal
  when its turn comes.
\<close>

lemma thrower_eval: "thrower s = Inl (Thrown InstantiationError)"
  by (simp add: thrower_def callFresh_def pluso_def thrown_or_def is_number_def)

lemma disji_call_fails:
  "disji [x_is 1, thrower] xy_state = Inr (Abort (Thrown InstantiationError))"
  "disj_goals [x_is 1, thrower] xy_state
     = Inr (Yield (xy_state(''x'' \<mapsto> Num 1)) (Abort (Thrown InstantiationError)))"
  by (simp_all add: disji_def disj_goals_def interleave_def x_is_eval thrower_eval
      started_simps gappend_simps)

section \<open>Soft cut and committed choice\<close>

lemma y_is_eval:
  assumes "s ''y'' = Some (Var ''y'')" and "s ''__proto__'' = None"
  shows "y_is k s = Inr (Yield (s(''y'' \<mapsto> Num k)) Done)"
proof -
  have "lookup s ''y'' = Some (Var ''y'')" using assms(1) by (rule lookup_own)
  then have "unify 2 (\<lambda>_. []) (Var ''y'') (Num k) s = Some (Some (extend s [''y'' \<mapsto> Num k]))"
    by (simp add: eval_nat_numeral)
  then show ?thesis using assms(2) by (simp add: y_is_def identical_def extend_plain)
qed

lemma xy_y: "(xy_state(''x'' \<mapsto> w)) ''y'' = Some (Var ''y'')" "xy_state ''y'' = Some (Var ''y'')"
  by (simp_all add: xy_state_def)

lemma one_or_two:
  "disj_goals [x_is 1, x_is 2] xy_state
     = Inr (Yield (xy_state(''x'' \<mapsto> Num 1)) (Yield (xy_state(''x'' \<mapsto> Num 2)) Done))"
  by (simp add: disj_goals_def x_is_eval gappend_simps started_simps)

text \<open>
  Claim C5, at \<^verbatim>\<open>conda(disj(x == 1, x == 2), fail)\<close> on \<^verbatim>\<open>{x: x, y: y}\<close>: the bare goal
  commits and yields \<open>x = 1\<close> only, while the same goal as the array clause
  \<^verbatim>\<open>[disj(x == 1, x == 2)]\<close> yields its full stream.
\<close>

theorem conda_bare_goal_first_only:
  "conda [Bare (disj_goals [x_is 1, x_is 2]), Bare fail] xy_state
     = Inr (Yield (xy_state(''x'' \<mapsto> Num 1)) Done)
   \<and> conda [Clause [disj_goals [x_is 1, x_is 2]], Bare fail] xy_state
     = Inr (Yield (xy_state(''x'' \<mapsto> Num 1)) (Yield (xy_state(''x'' \<mapsto> Num 2)) Done))"
  by (simp add: conda_def one_or_two bind_loop.code settle.simps succeed_def started_simps)

text \<open>
  Claim C4, at the goal \<^verbatim>\<open>condu([x == 1, y == 2])\<close> run twice on \<^verbatim>\<open>{x: x, y: y}\<close>: the
  first run yields \<open>x = 1, y = 2\<close> and leaves the clause array as \<^verbatim>\<open>[y == 2]\<close>; the second
  run of the same goal on the same state yields \<open>y = 2\<close> with \<open>x\<close> unbound.
\<close>

theorem condu_second_run_differs:
  "(case condu [Clause [x_is 1, y_is 2]] xy_state of
      (first, goals') \<Rightarrow>
        first = Inr (Yield (xy_state(''x'' \<mapsto> Num 1, ''y'' \<mapsto> Num 2)) Done)
        \<and> fst (condu goals' xy_state) = Inr (Yield (xy_state(''y'' \<mapsto> Num 2)) Done))"
  by (simp add: condu_def x_is_eval y_is_eval xy_y xy_plain succeed_def started_simps)

section \<open>\<^verbatim>\<open>pluso\<close>\<close>

text \<open>
  With three integers the stream of \<^verbatim>\<open>pluso(a, b, c)\<close> is the given state when
  \<open>a + b = c\<close> and empty otherwise; with two variables among the arguments the call throws.
\<close>

lemma pluso_ground:
  assumes "is_number a" and "is_number b" and "is_number c"
  shows "\<exists>g. pluso n h a b c = Inr g
     \<and> g s = Inr (if BigInt a + BigInt b = BigInt c then Yield s Done else Done)"
  using assms by (simp add: pluso_def succeed_def fail_def)

lemma pluso_two_unknowns:
  assumes "(is_Var a \<and> is_Var b) \<or> (is_Var a \<and> is_Var c) \<or> (is_Var b \<and> is_Var c)"
  shows "pluso n h a b c = Inl InstantiationError"
  using assms by (auto simp: pluso_def is_number_def split: val.splits)

text \<open>
  Claim C9, at \<^verbatim>\<open>pluso(1, 2, c)\<close> with \<^verbatim>\<open>c = new Var("c")\<close> on the empty state. Exactly one
  argument is a variable, and the state binds it to nothing. The goal is
  \<^verbatim>\<open>identical(c, 3n)\<close>; \<^verbatim>\<open>walk\<close> reads \<^verbatim>\<open>s["c"]\<close>, which is \<^verbatim>\<open>undefined\<close>, and goes on with
  that value, so the unification fails and the stream is empty. On the state \<^verbatim>\<open>{c: c}\<close>,
  which stores the variable under its id, the same goal yields the one state that binds
  \<open>c\<close> to \<open>3n\<close>.
\<close>

theorem pluso_unstored_var_fails:
  "pluso 5 (\<lambda>_. []) (Num 1) (Num 2) (Var ''c'') = Inr (identical 5 (\<lambda>_. []) (Var ''c'') (Big 3))
   \<and> walk 5 (Var ''c'') Map.empty = Some Undef
   \<and> identical 5 (\<lambda>_. []) (Var ''c'') (Big 3) Map.empty = Inr Done
   \<and> identical 5 (\<lambda>_. []) (Var ''c'') (Big 3) [''c'' \<mapsto> Var ''c'']
       = Inr (Yield [''c'' \<mapsto> Big 3] Done)"
  by (simp add: pluso_def is_number_def BigInt_def identical_def eval_nat_numeral lookup_def
      object_prototype_def object_prototype_names_def extend_plain)

section \<open>\<^verbatim>\<open>callFresh\<close> and \<^verbatim>\<open>fresh\<close>\<close>




section \<open>Generators over \<^verbatim>\<open>varList\<close>\<close>

text \<open>
  Claim C3, at \<^verbatim>\<open>listo(x)\<close> on \<^verbatim>\<open>{x: x}\<close>. The first pull yields a state that binds \<open>x\<close>
  to the array at address 0, empty at that moment. The second pull pushes a variable
  onto that same array before it yields: the list bound in the state yielded first now
  has one element.
\<close>

theorem listo_yielded_list_grows:
  "(case listo_next 1 uuid (listo (Var ''x'') [''x'' \<mapsto> Var ''x'']) world0 of
      (r1, g1, w1) \<Rightarrow>
        (case listo_next 1 uuid g1 w1 of
           (r2, g2, w2) \<Rightarrow>
             r1 = Yielded [''x'' \<mapsto> Arr 0] \<and> heap w1 0 = []
             \<and> r2 = Yielded [''x'' \<mapsto> Arr 0] \<and> heap w2 0 = [Var (uuid 0)]))"
  by (simp add: listo_def world0_def alloc_def varList_next_def varList_def new_Var_def
      push_def lookup_def extend_plain)

text \<open>
  Claim C8, at \<^verbatim>\<open>ntho(n, list, "g")\<close> on \<^verbatim>\<open>{n: n, list: list}\<close>. The first pull binds
  \<open>list\<close> to \<^verbatim>\<open>["g"]\<close> and \<open>n\<close> to 1, the second binds \<open>list\<close> to \<^verbatim>\<open>[v, "g"]\<close> and \<open>n\<close> to 2:
  \<open>n\<close> is the length of the list, one more than the 0-based position of the element.
\<close>

theorem ntho_unbound_index_is_length:
  "(case ntho_next uuid (ntho_unbound ''n'' ''list'' (Str ''g'')
        [''n'' \<mapsto> Var ''n'', ''list'' \<mapsto> Var ''list'']) world0 of
      (r1, g1, w1) \<Rightarrow>
        (case ntho_next uuid g1 w1 of
           (r2, g2, w2) \<Rightarrow>
             r1 = Yielded [''n'' \<mapsto> Num 1, ''list'' \<mapsto> Arr 2] \<and> heap w1 2 = [Str ''g'']
             \<and> r2 = Yielded [''n'' \<mapsto> Num 2, ''list'' \<mapsto> Arr 3]
             \<and> heap w2 3 = [Var (uuid 0), Str ''g'']))"
proof -
  have e: "extend [''n'' \<mapsto> Var ''n'', ''list'' \<mapsto> Var ''list''] [''list'' \<mapsto> Arr a, ''n'' \<mapsto> Num k]
      = [''n'' \<mapsto> Num k, ''list'' \<mapsto> Arr a]" for a k
    by (auto simp: extend_def map_add_def fun_eq_iff)
  show ?thesis
    by (simp add: ntho_unbound_def world0_def alloc_def varList_next_def varList_def new_Var_def
        push_def ntho_yield_def e eval_nat_numeral)
qed

lemma varList_next_resumed:
  "varList_next uuid (VarList a True) w =
     (Arr a, VarList a True,
      World ((heap w)(a := heap w a @ [Var (uuid (drawn w))])) (next_addr w) (Suc (drawn w)))"
  by (simp add: varList_next_def new_Var_def push_def)

lemma upt_shift_map: "map f [Suc 0..<Suc k] = map (\<lambda>j. f (Suc j)) [0..<k]"
  by (induction k) simp_all

lemma membero_vars_pulls:
  "membero_pulls n uuid k (Membero_vars i s (VarList a True)) w =
     (replicate k (Yielded (extend s [i \<mapsto> Arr a])), Membero_vars i s (VarList a True),
      World ((heap w)(a := heap w a @ map (\<lambda>j. Var (uuid (drawn w + j))) [0..<k]))
        (next_addr w) (drawn w + k))"
proof (induction k arbitrary: w)
  case 0
  then show ?case by (cases w) simp
next
  case (Suc k)
  define w1 where
    "w1 = World ((heap w)(a := heap w a @ [Var (uuid (drawn w))])) (next_addr w) (Suc (drawn w))"
  have sel: "heap w1 a = heap w a @ [Var (uuid (drawn w))]" "next_addr w1 = next_addr w"
    "drawn w1 = Suc (drawn w)"
    "(heap w1)(a := xs) = (heap w)(a := xs)" for xs
    by (simp_all add: w1_def)
  have "[0..<Suc k] = 0 # [Suc 0..<Suc k]" by (simp add: upt_rec)
  then have m: "map (\<lambda>j. Var (uuid (drawn w + j))) [0..<Suc k]
      = Var (uuid (drawn w)) # map (\<lambda>j. Var (uuid (Suc (drawn w + j)))) [0..<k]"
    using upt_shift_map[of "\<lambda>j. Var (uuid (drawn w + j))" k] by simp
  have "membero_pulls n uuid (Suc k) (Membero_vars i s (VarList a True)) w =
      (case membero_pulls n uuid k (Membero_vars i s (VarList a True)) w1 of
         (rs, g2, w2) \<Rightarrow> (Yielded (extend s [i \<mapsto> Arr a]) # rs, g2, w2))"
    by (simp add: varList_next_resumed w1_def)
  also have "\<dots> = (replicate (Suc k) (Yielded (extend s [i \<mapsto> Arr a])),
      Membero_vars i s (VarList a True),
      World ((heap w)(a := heap w a @ map (\<lambda>j. Var (uuid (drawn w + j))) [0..<Suc k]))
        (next_addr w) (drawn w + Suc k))"
    unfolding Suc.IH sel m by simp
  finally show ?case .
qed

text \<open>
  \<^verbatim>\<open>membero(el, list)\<close> where \<open>list\<close> is a variable that walks to a variable: every pull
  yields, each state binds the id of \<open>list\<close> to the one array made at the first pull, and
  after \<open>k + 1\<close> pulls that array holds \<open>el\<close> followed by \<open>k\<close> new variables.
\<close>

lemma membero_unbound_pulls:
  assumes "walk n (Var i) s = Some (Var l)"
  shows "membero_pulls n uuid (Suc k) (membero el (Var i) s) w =
     (replicate (Suc k) (Yielded (extend s [i \<mapsto> Arr (next_addr w)])),
      Membero_vars i s (VarList (next_addr w) True),
      World ((heap w)(next_addr w := el # map (\<lambda>j. Var (uuid (drawn w + j))) [0..<k]))
        (Suc (next_addr w)) (drawn w + k))"
  using assms
  by (simp add: membero_def alloc_def varList_def varList_next_def membero_vars_pulls
      del: upt_Suc)

text \<open>
  Claim C7, at \<^verbatim>\<open>membero(7, l)\<close> on \<^verbatim>\<open>{l: l}\<close>. Three pulls yield three states that bind
  \<open>l\<close> to the array at address 0, which then holds \<^verbatim>\<open>[7, u, uu]\<close>: the element at the head,
  new variables behind it. For the list length 2 and the position 2 of the claim: no
  pull yields a state that binds \<open>l\<close> to a list \<^verbatim>\<open>[v, 7]\<close> with \<open>v\<close> a variable.
\<close>

theorem membero_never_second:
  "membero_pulls 1 sample_uuid 3 (membero (Num 7) (Var ''l'') [''l'' \<mapsto> Var ''l'']) world0 =
     (replicate 3 (Yielded [''l'' \<mapsto> Arr 0]),
      Membero_vars ''l'' [''l'' \<mapsto> Var ''l''] (VarList 0 True),
      World ((\<lambda>_. [])(0 := [Num 7, Var (sample_uuid 0), Var (sample_uuid 1)])) 1 2)
   \<and> \<not> (\<exists>k a v. fst (membero_pulls 1 sample_uuid (Suc k)
          (membero (Num 7) (Var ''l'') [''l'' \<mapsto> Var ''l'']) world0) ! k
        = Yielded ([''l'' \<mapsto> Var ''l''](''l'' \<mapsto> Arr a))
      \<and> heap (snd (snd (membero_pulls 1 sample_uuid (Suc k)
          (membero (Num 7) (Var ''l'') [''l'' \<mapsto> Var ''l'']) world0))) a = [Var v, Num 7])"
proof -
  have w: "walk 1 (Var ''l'') [''l'' \<mapsto> Var ''l''] = Some (Var ''l'')"
    by (simp add: lookup_def)
  have e: "extend [''l'' \<mapsto> Var ''l''] [''l'' \<mapsto> Arr b] = [''l'' \<mapsto> Arr b]" for b
    by (simp add: extend_plain)
  have n0: "next_addr world0 = 0" "heap world0 = (\<lambda>_. [])" "drawn world0 = 0"
    by (simp_all add: world0_def)
  note p = membero_unbound_pulls[OF w, of sample_uuid _ "Num 7" world0, unfolded e n0]
  have m: "map (\<lambda>j. Var (sample_uuid (0 + j))) [0..<2] = [Var (sample_uuid 0), Var (sample_uuid 1)]"
    by (simp add: eval_nat_numeral)
  have 3: "(3::nat) = Suc 2" by simp
  have 1: "membero_pulls 1 sample_uuid 3 (membero (Num 7) (Var ''l'') [''l'' \<mapsto> Var ''l'']) world0 =
     (replicate 3 (Yielded [''l'' \<mapsto> Arr 0]),
      Membero_vars ''l'' [''l'' \<mapsto> Var ''l''] (VarList 0 True),
      World ((\<lambda>_. [])(0 := [Num 7, Var (sample_uuid 0), Var (sample_uuid 1)])) 1 2)"
    unfolding 3 p[of 2] m by simp
  have 2: "\<not> (\<exists>k a v. fst (membero_pulls 1 sample_uuid (Suc k)
          (membero (Num 7) (Var ''l'') [''l'' \<mapsto> Var ''l'']) world0) ! k
        = Yielded ([''l'' \<mapsto> Var ''l''](''l'' \<mapsto> Arr a))
      \<and> heap (snd (snd (membero_pulls 1 sample_uuid (Suc k)
          (membero (Num 7) (Var ''l'') [''l'' \<mapsto> Var ''l'']) world0))) a = [Var v, Num 7])"
  proof
    assume "\<exists>k a v. fst (membero_pulls 1 sample_uuid (Suc k)
          (membero (Num 7) (Var ''l'') [''l'' \<mapsto> Var ''l'']) world0) ! k
        = Yielded ([''l'' \<mapsto> Var ''l''](''l'' \<mapsto> Arr a))
      \<and> heap (snd (snd (membero_pulls 1 sample_uuid (Suc k)
          (membero (Num 7) (Var ''l'') [''l'' \<mapsto> Var ''l'']) world0))) a = [Var v, Num 7]"
    then obtain k a v where
      y: "fst (membero_pulls 1 sample_uuid (Suc k)
          (membero (Num 7) (Var ''l'') [''l'' \<mapsto> Var ''l'']) world0) ! k
        = Yielded ([''l'' \<mapsto> Var ''l''](''l'' \<mapsto> Arr a))"
      and h: "heap (snd (snd (membero_pulls 1 sample_uuid (Suc k)
          (membero (Num 7) (Var ''l'') [''l'' \<mapsto> Var ''l'']) world0))) a = [Var v, Num 7]"
      by blast
    from y have "Yielded [''l'' \<mapsto> Arr 0] = Yielded ([''l'' \<mapsto> Var ''l''](''l'' \<mapsto> Arr a))"
      unfolding p[of k] fst_conv by (simp only: nth_replicate lessI)
    then have "[''l'' \<mapsto> Arr 0] ''l'' = ([''l'' \<mapsto> Var ''l''](''l'' \<mapsto> Arr a)) ''l''"
      by simp
    then have a: "a = 0" by simp
    from h show False unfolding p[of k] a snd_conv by simp
  qed
  from 1 2 show ?thesis by blast
qed


end
